theory Spec2Isabelle
  imports Main "HOL-Library.Word"
begin

unbundle bit_operations_syntax

section \<open>ARC: atomically reference counted pointers (arc.h)\<close>

text \<open>
  The embedding follows \<^verbatim>\<open>arc.h\<close> function by function, for the LP64 data model:
  \<^verbatim>\<open>size_t\<close> and \<^verbatim>\<open>uintptr_t\<close> are 64-bit words, so \<^verbatim>\<open>sizeof(uintptr_t)\<close> is 8 and
  \<^verbatim>\<open>sizeof(arc_header_t)\<close> (two \<^verbatim>\<open>atomic_size_t\<close>) is 16. Arithmetic on counters, sizes
  and addresses is word arithmetic and wraps as in C.

  One call is executed at a time; the memory orders of the atomic operations (relaxed,
  release, acquire) have no counterpart here. What other threads may do while a
  compare-and-swap loop is running is given to the loop as a schedule, one event per
  attempted compare-and-swap.
\<close>

subsection \<open>Data model\<close>

type_synonym size_t = "64 word"
type_synonym ptr = "64 word"

text \<open>\<^verbatim>\<open>typedef struct arc_header { atomic_size_t weak_count; atomic_size_t strong_count; }\<close>\<close>

record arc_header =
  weak_count :: size_t
  strong_count :: size_t

text \<open>
  A block handed out by \<^verbatim>\<open>malloc\<close>: the size that was asked for and the header stored at
  its start. The payload bytes behind the header are not part of the model.
\<close>

record block =
  bsize :: size_t
  hdr :: arc_header

datatype errno_t = ENOENT | ETOOMANYREFS

text \<open>
  The machine: the live blocks by base address, the arguments of every call of
  \<^verbatim>\<open>free\<close> and of every call of a destructor (oldest first), and \<^verbatim>\<open>errno\<close>
  (\<open>None\<close> while this library has not written it).
\<close>

record machine =
  heap :: "ptr \<rightharpoonup> block"
  freed :: "ptr list"
  destroyed :: "ptr list"
  errno :: "errno_t option"

text \<open>
  The outcome of a call: \<open>UB\<close> when it reads or writes a header outside a live block
  (undefined behaviour in C), \<open>Spin\<close> when its retry loop is still running at the end of
  the schedule, \<open>Ret r m\<close> when it returns \<open>r\<close> and leaves the machine \<open>m\<close>. A returned
  pointer is \<open>Some p\<close>; \<open>None\<close> is \<^verbatim>\<open>NULL\<close>.
\<close>

datatype 'a exec = UB | Spin | Ret 'a machine

text \<open>A destructor is a callback on the payload address; \<open>None\<close> is \<^verbatim>\<open>NULL\<close>.\<close>

type_synonym destructor = "(ptr \<Rightarrow> machine \<Rightarrow> machine) option"

subsection \<open>Constants\<close>

definition sizeof_uintptr_t :: size_t where
  "sizeof_uintptr_t = 8"

definition sizeof_arc_header_t :: size_t where
  "sizeof_arc_header_t = 16"

definition SIZE_MAX :: size_t where
  "SIZE_MAX = - 1"

definition ARC_ALIGN_BITS :: size_t where
  "ARC_ALIGN_BITS = sizeof_uintptr_t - 1"

definition ARC_HEADER_SIZE_WITH_PAD :: size_t where
  "ARC_HEADER_SIZE_WITH_PAD = (sizeof_arc_header_t + ARC_ALIGN_BITS) AND NOT ARC_ALIGN_BITS"

definition ARC_WEAK_MAX_REFS :: size_t where
  "ARC_WEAK_MAX_REFS = drop_bit 1 SIZE_MAX"

subsection \<open>Memory and the primitives of \<^verbatim>\<open>stdlib.h\<close> and \<^verbatim>\<open>stdatomic.h\<close>\<close>

datatype counter = Weak | Strong

fun count_of :: "counter \<Rightarrow> arc_header \<Rightarrow> size_t" where
  "count_of Weak h = weak_count h"
| "count_of Strong h = strong_count h"

fun set_count :: "counter \<Rightarrow> size_t \<Rightarrow> arc_header \<Rightarrow> arc_header" where
  "set_count Weak v h = h\<lparr>weak_count := v\<rparr>"
| "set_count Strong v h = h\<lparr>strong_count := v\<rparr>"

text \<open>
  A header can be read or written at \<open>p\<close> when \<open>p\<close> is the base of a live block that is
  large enough to hold one.
\<close>

definition header_at :: "machine \<Rightarrow> ptr \<Rightarrow> arc_header option" where
  "header_at m p =
     (case heap m p of
        None \<Rightarrow> None
      | Some b \<Rightarrow> if sizeof_arc_header_t \<le> bsize b then Some (hdr b) else None)"

definition store_header :: "ptr \<Rightarrow> arc_header \<Rightarrow> machine \<Rightarrow> machine" where
  "store_header p h m = m\<lparr>heap := (heap m)(p := map_option (\<lambda>b. b\<lparr>hdr := h\<rparr>) (heap m p))\<rparr>"

definition store_count :: "counter \<Rightarrow> ptr \<Rightarrow> size_t \<Rightarrow> machine \<Rightarrow> machine option" where
  "store_count c p v m =
     (case header_at m p of
        None \<Rightarrow> None
      | Some h \<Rightarrow> Some (store_header p (set_count c v h) m))"

text \<open>
  \<^verbatim>\<open>malloc(sz)\<close>. The allocator's answer is an argument of the model: \<open>None\<close> when it
  returns \<^verbatim>\<open>NULL\<close>, otherwise the base address of the new block together with the
  indeterminate contents found there.
\<close>

definition malloc :: "(ptr \<times> arc_header) option \<Rightarrow> size_t \<Rightarrow> machine \<Rightarrow> ptr option \<times> machine" where
  "malloc answer sz m =
     (case answer of
        None \<Rightarrow> (None, m)
      | Some (base, junk) \<Rightarrow>
          (Some base, m\<lparr>heap := (heap m)(base \<mapsto> \<lparr>bsize = sz, hdr = junk\<rparr>)\<rparr>))"

text \<open>\<^verbatim>\<open>free(p)\<close>: defined on the base of a live block only.\<close>

definition free :: "ptr \<Rightarrow> machine \<Rightarrow> machine option" where
  "free p m =
     (case heap m p of
        None \<Rightarrow> None
      | Some b \<Rightarrow> Some (m\<lparr>heap := (heap m)(p := None), freed := freed m @ [p]\<rparr>))"

definition atomic_init :: "counter \<Rightarrow> ptr \<Rightarrow> size_t \<Rightarrow> machine \<Rightarrow> machine option" where
  "atomic_init c p v m = store_count c p v m"

definition atomic_load :: "counter \<Rightarrow> ptr \<Rightarrow> machine \<Rightarrow> size_t option" where
  "atomic_load c p m = map_option (count_of c) (header_at m p)"

text \<open>\<^verbatim>\<open>atomic_fetch_add_explicit\<close> and \<^verbatim>\<open>atomic_fetch_sub_explicit\<close> return the old value.\<close>

definition atomic_fetch_add :: "counter \<Rightarrow> ptr \<Rightarrow> size_t \<Rightarrow> machine \<Rightarrow> (size_t \<times> machine) option" where
  "atomic_fetch_add c p k m =
     (case header_at m p of
        None \<Rightarrow> None
      | Some h \<Rightarrow> Some (count_of c h, store_header p (set_count c (count_of c h + k) h) m))"

definition atomic_fetch_sub :: "counter \<Rightarrow> ptr \<Rightarrow> size_t \<Rightarrow> machine \<Rightarrow> (size_t \<times> machine) option" where
  "atomic_fetch_sub c p k m =
     (case header_at m p of
        None \<Rightarrow> None
      | Some h \<Rightarrow> Some (count_of c h, store_header p (set_count c (count_of c h - k) h) m))"

text \<open>
  What happens around one attempted compare-and-swap: nothing (\<open>Quiet\<close>), a spurious
  failure of the weak compare-and-swap (\<open>Spurious\<close>), or another thread has written
  \<open>v\<close> to the counter since this thread last read it (\<open>Store v\<close>).
\<close>

datatype cas_event = Quiet | Spurious | Store size_t

fun interfere :: "counter \<Rightarrow> ptr \<Rightarrow> cas_event \<Rightarrow> machine \<Rightarrow> machine" where
  "interfere c p (Store v) m = (case store_count c p v m of None \<Rightarrow> m | Some m' \<Rightarrow> m')"
| "interfere c p e m = m"

text \<open>
  \<^verbatim>\<open>atomic_compare_exchange_weak_explicit(obj, &expected, desired, ..)\<close>: the result is
  the success flag, the new contents of \<^verbatim>\<open>expected\<close>, and the machine.
\<close>

definition atomic_compare_exchange_weak ::
    "cas_event \<Rightarrow> counter \<Rightarrow> ptr \<Rightarrow> size_t \<Rightarrow> size_t \<Rightarrow> machine \<Rightarrow> (bool \<times> size_t \<times> machine) option" where
  "atomic_compare_exchange_weak e c p expected desired m =
     (let m1 = interfere c p e m in
      case header_at m1 p of
        None \<Rightarrow> None
      | Some h \<Rightarrow>
          if e \<noteq> Spurious \<and> count_of c h = expected
          then Some (True, expected, store_header p (set_count c desired h) m1)
          else Some (False, count_of c h, m1))"

subsection \<open>The functions of \<^verbatim>\<open>arc.h\<close>\<close>

definition get_header :: "ptr \<Rightarrow> ptr" where
  "get_header data = data - ARC_HEADER_SIZE_WITH_PAD"

definition arc_new :: "(ptr \<times> arc_header) option \<Rightarrow> size_t \<Rightarrow> machine \<Rightarrow> ptr option exec" where
  "arc_new answer nbytes m =
     (if nbytes = 0 then Ret None m
      else
        case malloc answer (ARC_HEADER_SIZE_WITH_PAD + nbytes) m of
          (None, m1) \<Rightarrow> Ret None m1
        | (Some data, m1) \<Rightarrow>
            (case atomic_init Strong data 1 m1 of
               None \<Rightarrow> UB
             | Some m2 \<Rightarrow>
                 (case atomic_init Weak data 1 m2 of
                    None \<Rightarrow> UB
                  | Some m3 \<Rightarrow> Ret (Some (data + ARC_HEADER_SIZE_WITH_PAD)) m3)))"

definition weak_free :: "ptr \<Rightarrow> machine \<Rightarrow> unit exec" where
  "weak_free weak_data m =
     (let header = get_header weak_data in
      case atomic_fetch_sub Weak header 1 m of
        None \<Rightarrow> UB
      | Some (prev, m1) \<Rightarrow>
          if prev = 1
          then (case free header m1 of None \<Rightarrow> UB | Some m2 \<Rightarrow> Ret () m2)
          else Ret () m1)"

definition call_destructor :: "destructor \<Rightarrow> ptr \<Rightarrow> machine \<Rightarrow> machine" where
  "call_destructor destructor arc_data m =
     (case destructor of
        None \<Rightarrow> m
      | Some d \<Rightarrow> d arc_data (m\<lparr>destroyed := destroyed m @ [arc_data]\<rparr>))"

definition arc_free :: "ptr \<Rightarrow> destructor \<Rightarrow> machine \<Rightarrow> unit exec" where
  "arc_free arc_data destructor m =
     (let header = get_header arc_data in
      case atomic_fetch_sub Strong header 1 m of
        None \<Rightarrow> UB
      | Some (prev, m1) \<Rightarrow>
          if prev = 1
          then weak_free arc_data (call_destructor destructor arc_data m1)
          else Ret () m1)"

definition arc_clone :: "ptr \<Rightarrow> machine \<Rightarrow> ptr option exec" where
  "arc_clone arc_data m =
     (let header = get_header arc_data in
      case atomic_fetch_add Strong header 1 m of
        None \<Rightarrow> UB
      | Some (prev, m1) \<Rightarrow>
          if prev > ARC_WEAK_MAX_REFS - 1
          then Ret None (m1\<lparr>errno := Some ETOOMANYREFS\<rparr>)
          else Ret (Some arc_data) m1)"

text \<open>The body of the \<^verbatim>\<open>for (;;)\<close> loop of \<^verbatim>\<open>arc_downgrade\<close>, one event per round.\<close>

fun arc_downgrade_loop :: "cas_event list \<Rightarrow> ptr \<Rightarrow> size_t \<Rightarrow> machine \<Rightarrow> ptr option exec" where
  "arc_downgrade_loop [] arc_data snapshot m = Spin"
| "arc_downgrade_loop (e # es) arc_data snapshot m =
     (case atomic_compare_exchange_weak e Weak (get_header arc_data) snapshot (snapshot + 1) m of
        None \<Rightarrow> UB
      | Some (ok, snapshot', m1) \<Rightarrow>
          if ok then Ret (Some arc_data) m1
          else arc_downgrade_loop es arc_data snapshot' m1)"

definition arc_downgrade :: "cas_event list \<Rightarrow> ptr \<Rightarrow> machine \<Rightarrow> ptr option exec" where
  "arc_downgrade sched arc_data m =
     (case atomic_load Weak (get_header arc_data) m of
        None \<Rightarrow> UB
      | Some snapshot \<Rightarrow> arc_downgrade_loop sched arc_data snapshot m)"

definition weak_clone :: "ptr \<Rightarrow> machine \<Rightarrow> ptr option exec" where
  "weak_clone weak_data m =
     (let header = get_header weak_data in
      case atomic_fetch_add Weak header 1 m of
        None \<Rightarrow> UB
      | Some (prev, m1) \<Rightarrow>
          if prev > ARC_WEAK_MAX_REFS - 1
          then Ret None (m1\<lparr>errno := Some ETOOMANYREFS\<rparr>)
          else Ret (Some weak_data) m1)"

text \<open>The body of the \<^verbatim>\<open>for (;;)\<close> loop of \<^verbatim>\<open>weak_upgrade\<close>, one event per round.\<close>

fun weak_upgrade_loop :: "cas_event list \<Rightarrow> ptr \<Rightarrow> size_t \<Rightarrow> machine \<Rightarrow> ptr option exec" where
  "weak_upgrade_loop es weak_data snapshot m =
     (if snapshot = 0 then Ret None (m\<lparr>errno := Some ENOENT\<rparr>)
      else if snapshot > ARC_WEAK_MAX_REFS - 1 then Ret None (m\<lparr>errno := Some ETOOMANYREFS\<rparr>)
      else
        case es of
          [] \<Rightarrow> Spin
        | e # es' \<Rightarrow>
            (case atomic_compare_exchange_weak e Strong (get_header weak_data) snapshot (snapshot + 1) m of
               None \<Rightarrow> UB
             | Some (ok, snapshot', m1) \<Rightarrow>
                 if ok then Ret (Some weak_data) m1
                 else weak_upgrade_loop es' weak_data snapshot' m1))"

definition weak_upgrade :: "cas_event list \<Rightarrow> ptr \<Rightarrow> machine \<Rightarrow> ptr option exec" where
  "weak_upgrade sched weak_data m =
     (case atomic_load Strong (get_header weak_data) m of
        None \<Rightarrow> UB
      | Some snapshot \<Rightarrow> weak_upgrade_loop sched weak_data snapshot m)"

subsection \<open>Runs of calls on one handle\<close>

text \<open>
  The machine after the writes that the other threads made during the first \<open>k\<close>
  events of a schedule.
\<close>

definition after_others :: "counter \<Rightarrow> ptr \<Rightarrow> cas_event list \<Rightarrow> nat \<Rightarrow> machine \<Rightarrow> machine" where
  "after_others c p es k m = fold (interfere c p) (take k es) m"

text \<open>
  A machine whose only block is one of 20 bytes at address 4096 (a 4-byte payload behind
  the 16-byte header), with the given counters. Its handle is 4112.
\<close>

definition arc_machine :: "size_t \<Rightarrow> size_t \<Rightarrow> machine" where
  "arc_machine w s =
     \<lparr>heap = [4096 \<mapsto> \<lparr>bsize = 20, hdr = \<lparr>weak_count = w, strong_count = s\<rparr>\<rparr>],
      freed = [], destroyed = [], errno = None\<rparr>"

definition empty_machine :: machine where
  "empty_machine = \<lparr>heap = Map.empty, freed = [], destroyed = [], errno = None\<rparr>"

text \<open>A destructor that leaves headers, allocator and \<^verbatim>\<open>errno\<close> alone.\<close>

definition idle_destructor :: destructor where
  "idle_destructor = Some (\<lambda>a s. s)"

text \<open>
  A sequence of strong clones and frees on the handle \<open>p\<close>. The run is defined as long
  as every clone succeeds and every free is not the final one (the counter it finds is
  not 1).
\<close>

datatype strong_op = Clone | Free

fun strong_ops :: "ptr \<Rightarrow> destructor \<Rightarrow> strong_op list \<Rightarrow> machine \<Rightarrow> machine option" where
  "strong_ops p d [] m = Some m"
| "strong_ops p d (Clone # ops) m =
     (case arc_clone p m of
        Ret (Some p') m' \<Rightarrow> strong_ops p d ops m'
      | _ \<Rightarrow> None)"
| "strong_ops p d (Free # ops) m =
     (if atomic_load Strong (get_header p) m = Some 1 then None
      else
        case arc_free p d m of
          Ret u m' \<Rightarrow> strong_ops p d ops m'
        | _ \<Rightarrow> None)"

text \<open>
  A sequence of calls of the public interface on the handle \<open>p\<close>, one after the other.
  The two retry loops run with \<open>n\<close> spurious failures of the compare-and-swap before an
  undisturbed attempt; a destructor, when given, leaves headers and allocator alone.
\<close>

datatype api_op =
    Op_arc_clone
  | Op_arc_free bool
  | Op_arc_downgrade nat
  | Op_weak_free
  | Op_weak_clone
  | Op_weak_upgrade nat

fun outcome :: "'a exec \<Rightarrow> machine option" where
  "outcome (Ret r m) = Some m"
| "outcome UB = None"
| "outcome Spin = None"

fun api_step :: "ptr \<Rightarrow> api_op \<Rightarrow> machine \<Rightarrow> machine option" where
  "api_step p Op_arc_clone m = outcome (arc_clone p m)"
| "api_step p (Op_arc_free given) m =
     outcome (arc_free p (if given then idle_destructor else None) m)"
| "api_step p (Op_arc_downgrade n) m = outcome (arc_downgrade (replicate n Spurious @ [Quiet]) p m)"
| "api_step p Op_weak_free m = outcome (weak_free p m)"
| "api_step p Op_weak_clone m = outcome (weak_clone p m)"
| "api_step p (Op_weak_upgrade n) m = outcome (weak_upgrade (replicate n Spurious @ [Quiet]) p m)"

fun api_run :: "ptr \<Rightarrow> api_op list \<Rightarrow> machine \<Rightarrow> machine option" where
  "api_run p [] m = Some m"
| "api_run p (x # xs) m =
     (case api_step p x m of
        None \<Rightarrow> None
      | Some m' \<Rightarrow> api_run p xs m')"

text \<open>The header behind the handle \<open>p\<close> after a run, if the run is defined and the block still live.\<close>

definition header_after :: "ptr \<Rightarrow> api_op list \<Rightarrow> machine \<Rightarrow> arc_header option" where
  "header_after p xs m =
     (case api_run p xs m of
        None \<Rightarrow> None
      | Some m' \<Rightarrow> header_at m' (get_header p))"

text \<open>Invariant A of the header: the strong handles together hold one weak claim.\<close>

definition invariant_A :: "arc_header \<Rightarrow> bool" where
  "invariant_A h \<longleftrightarrow> (0 < strong_count h \<longrightarrow> 1 \<le> weak_count h)"

text \<open>
  No call of the run that increments \<open>weak_count\<close> finds it at \<^verbatim>\<open>SIZE_MAX\<close>.
\<close>

fun weak_increment :: "api_op \<Rightarrow> bool" where
  "weak_increment Op_weak_clone = True"
| "weak_increment (Op_arc_downgrade n) = True"
| "weak_increment x = False"

fun no_weak_wrap :: "ptr \<Rightarrow> api_op list \<Rightarrow> machine \<Rightarrow> bool" where
  "no_weak_wrap p [] m = True"
| "no_weak_wrap p (x # xs) m =
     ((weak_increment x \<longrightarrow> atomic_load Weak (get_header p) m \<noteq> Some SIZE_MAX) \<and>
      (case api_step p x m of
         None \<Rightarrow> True
       | Some m' \<Rightarrow> no_weak_wrap p xs m'))"

text \<open>
  The handles the callers hold on the allocation: the number of strong handles and the
  number of weak handles. A call takes a handle of its kind; \<^verbatim>\<open>arc_free\<close> and \<^verbatim>\<open>weak_free\<close>
  give theirs up, and a call that returns a handle (not \<^verbatim>\<open>NULL\<close>) adds one of the kind it
  returns.
\<close>

type_synonym handles = "nat \<times> nat"

fun holds :: "api_op \<Rightarrow> handles \<Rightarrow> bool" where
  "holds Op_arc_clone (S, W) = (0 < S)"
| "holds (Op_arc_free given) (S, W) = (0 < S)"
| "holds (Op_arc_downgrade n) (S, W) = (0 < S)"
| "holds Op_weak_free (S, W) = (0 < W)"
| "holds Op_weak_clone (S, W) = (0 < W)"
| "holds (Op_weak_upgrade n) (S, W) = (0 < W)"

fun gained :: "ptr option exec \<Rightarrow> nat" where
  "gained (Ret (Some p) m) = 1"
| "gained (Ret None m) = 0"
| "gained UB = 0"
| "gained Spin = 0"

fun handles_step :: "ptr \<Rightarrow> api_op \<Rightarrow> machine \<Rightarrow> handles \<Rightarrow> handles" where
  "handles_step p Op_arc_clone m (S, W) = (S + gained (arc_clone p m), W)"
| "handles_step p (Op_arc_free given) m (S, W) = (S - 1, W)"
| "handles_step p (Op_arc_downgrade n) m (S, W) =
     (S, W + gained (arc_downgrade (replicate n Spurious @ [Quiet]) p m))"
| "handles_step p Op_weak_free m (S, W) = (S, W - 1)"
| "handles_step p Op_weak_clone m (S, W) = (S, W + gained (weak_clone p m))"
| "handles_step p (Op_weak_upgrade n) m (S, W) =
     (S + gained (weak_upgrade (replicate n Spurious @ [Quiet]) p m), W)"

text \<open>
  The call increments a counter that is at \<^verbatim>\<open>SIZE_MAX\<close>. (\<^verbatim>\<open>weak_upgrade\<close> increments
  \<open>strong_count\<close> below the ceiling only.)
\<close>

fun counter_wraps :: "ptr \<Rightarrow> api_op \<Rightarrow> machine \<Rightarrow> bool" where
  "counter_wraps p Op_arc_clone m = (atomic_load Strong (get_header p) m = Some SIZE_MAX)"
| "counter_wraps p (Op_arc_downgrade n) m = (atomic_load Weak (get_header p) m = Some SIZE_MAX)"
| "counter_wraps p Op_weak_clone m = (atomic_load Weak (get_header p) m = Some SIZE_MAX)"
| "counter_wraps p x m = False"

text \<open>
  Every call of the run is made on a handle the callers hold, and none increments a
  counter that is at \<^verbatim>\<open>SIZE_MAX\<close>.
\<close>

fun client_ok :: "ptr \<Rightarrow> api_op list \<Rightarrow> handles \<Rightarrow> machine \<Rightarrow> bool" where
  "client_ok p [] hs m = True"
| "client_ok p (x # xs) hs m =
     (holds x hs \<and> \<not> counter_wraps p x m \<and>
      (case api_step p x m of
         None \<Rightarrow> True
       | Some m' \<Rightarrow> client_ok p xs (handles_step p x m hs) m'))"

fun handles_after :: "ptr \<Rightarrow> api_op list \<Rightarrow> handles \<Rightarrow> machine \<Rightarrow> handles" where
  "handles_after p [] hs m = hs"
| "handles_after p (x # xs) hs m =
     (case api_step p x m of
        None \<Rightarrow> hs
      | Some m' \<Rightarrow> handles_after p xs (handles_step p x m hs) m')"

text \<open>
  The counters account for the handles held: \<open>strong_count\<close> is at least the number of
  strong handles, and \<open>weak_count\<close> at least the number of weak handles plus the implicit
  claim, which is 1 while \<open>strong_count\<close> is greater than 0.
\<close>

fun accounted :: "handles \<Rightarrow> arc_header \<Rightarrow> bool" where
  "accounted (S, W) h \<longleftrightarrow>
     S \<le> unat (strong_count h) \<and>
     W + (if 0 < strong_count h then 1 else 0) \<le> unat (weak_count h)"

section \<open>Properties\<close>

subsection \<open>Constants, memory and primitives\<close>

lemma ARC_HEADER_SIZE_WITH_PAD_eq: "ARC_HEADER_SIZE_WITH_PAD = 16"
  by (simp add: ARC_HEADER_SIZE_WITH_PAD_def ARC_ALIGN_BITS_def sizeof_uintptr_t_def sizeof_arc_header_t_def)

lemma ARC_WEAK_MAX_REFS_eq: "ARC_WEAK_MAX_REFS = 0x7FFFFFFFFFFFFFFF"
  by (simp add: ARC_WEAK_MAX_REFS_def SIZE_MAX_def mask_eq_exp_minus_1)

lemma header_at_store_header:
  "header_at (store_header p h' m) q = (if q = p then map_option (\<lambda>_. h') (header_at m p) else header_at m q)"
  by (auto simp: header_at_def store_header_def split: option.splits)

lemma store_header_fields [simp]:
  "freed (store_header p h m) = freed m"
  "destroyed (store_header p h m) = destroyed m"
  "errno (store_header p h m) = errno m"
  by (simp_all add: store_header_def)

lemma store_header_twice [simp]:
  "store_header p h (store_header p h' m) = store_header p h m"
  by (cases "heap m p") (simp_all add: store_header_def)

lemma dom_store_header [simp]: "dom (heap (store_header p h m)) = dom (heap m)"
  by (auto simp: store_header_def split: if_splits)

lemma header_at_heap: "header_at m p = Some h \<Longrightarrow> \<exists>b. heap m p = Some b"
  by (auto simp: header_at_def split: option.splits)

lemma weak_free_live:
  assumes "header_at m (get_header w) = Some h"
  shows "weak_free w m = Ret ()
     (if weak_count h = 1
      then m\<lparr>heap := (heap m)(get_header w := None), freed := freed m @ [get_header w]\<rparr>
      else store_header (get_header w) (h\<lparr>weak_count := weak_count h - 1\<rparr>) m)"
  using assms header_at_heap [OF assms]
  by (auto simp: weak_free_def atomic_fetch_sub_def free_def store_header_def Let_def)

lemma weak_free_dead: "header_at m (get_header w) = None \<Longrightarrow> weak_free w m = UB"
  by (simp add: weak_free_def atomic_fetch_sub_def)

lemma arc_free_live:
  assumes "header_at m (get_header p) = Some h"
  shows "arc_free p d m =
     (if strong_count h = 1
      then weak_free p (call_destructor d p (store_header (get_header p) (h\<lparr>strong_count := 0\<rparr>) m))
      else Ret () (store_header (get_header p) (h\<lparr>strong_count := strong_count h - 1\<rparr>) m))"
  using assms by (simp add: arc_free_def atomic_fetch_sub_def Let_def)

lemma arc_clone_live:
  assumes "header_at m (get_header p) = Some h"
  shows "arc_clone p m =
     (if strong_count h > ARC_WEAK_MAX_REFS - 1
      then Ret None ((store_header (get_header p) (h\<lparr>strong_count := strong_count h + 1\<rparr>) m)\<lparr>errno := Some ETOOMANYREFS\<rparr>)
      else Ret (Some p) (store_header (get_header p) (h\<lparr>strong_count := strong_count h + 1\<rparr>) m))"
  using assms by (simp add: arc_clone_def atomic_fetch_add_def Let_def)

lemma weak_clone_live:
  assumes "header_at m (get_header p) = Some h"
  shows "weak_clone p m =
     (if weak_count h > ARC_WEAK_MAX_REFS - 1
      then Ret None ((store_header (get_header p) (h\<lparr>weak_count := weak_count h + 1\<rparr>) m)\<lparr>errno := Some ETOOMANYREFS\<rparr>)
      else Ret (Some p) (store_header (get_header p) (h\<lparr>weak_count := weak_count h + 1\<rparr>) m))"
  using assms by (simp add: weak_clone_def atomic_fetch_add_def Let_def)

declare weak_upgrade_loop.simps [simp del]

lemma after_others_0 [simp]: "after_others c p es 0 m = m"
  by (simp add: after_others_def)

lemma after_others_Suc [simp]:
  "after_others c p (e # es) (Suc k) m = after_others c p es k (interfere c p e m)"
  by (simp add: after_others_def)

lemma header_at_interfere:
  "header_at (interfere c p e m) p = None \<longleftrightarrow> header_at m p = None"
  by (cases e) (auto simp: store_count_def header_at_store_header split: option.splits)

lemma interfere_fields [simp]:
  "freed (interfere c p e m) = freed m"
  "destroyed (interfere c p e m) = destroyed m"
  "errno (interfere c p e m) = errno m"
  by (cases e; simp add: store_count_def split: option.splits)+

lemma cas_live:
  assumes "header_at m p = Some h"
  shows "\<exists>h1. header_at (interfere c p e m) p = Some h1 \<and>
     atomic_compare_exchange_weak e c p x y m =
       Some (if e \<noteq> Spurious \<and> count_of c h1 = x
             then (True, x, store_header p (set_count c y h1) (interfere c p e m))
             else (False, count_of c h1, interfere c p e m))"
proof -
  from assms have "header_at (interfere c p e m) p \<noteq> None"
    by (simp add: header_at_interfere)
  then obtain h1 where "header_at (interfere c p e m) p = Some h1" by blast
  then show ?thesis
    by (simp add: atomic_compare_exchange_weak_def Let_def)
qed

lemma cas_quiet:
  assumes "header_at m p = Some h"
  shows "atomic_compare_exchange_weak Quiet c p (count_of c h) y m =
     Some (True, count_of c h, store_header p (set_count c y h) m)"
  using assms by (simp add: atomic_compare_exchange_weak_def)

lemma weak_upgrade_loop_outcome:
  assumes "header_at m (get_header w) = Some h"
  shows "(weak_upgrade_loop es w (strong_count h) m = Spin \<and> Quiet \<notin> set es) \<or>
    (\<exists>k hk. k \<le> length es \<and>
       header_at (after_others Strong (get_header w) es k m) (get_header w) = Some hk \<and>
       weak_upgrade_loop es w (strong_count h) m =
         (if strong_count hk = 0
          then Ret None ((after_others Strong (get_header w) es k m)\<lparr>errno := Some ENOENT\<rparr>)
          else if strong_count hk > ARC_WEAK_MAX_REFS - 1
          then Ret None ((after_others Strong (get_header w) es k m)\<lparr>errno := Some ETOOMANYREFS\<rparr>)
          else Ret (Some w) (store_header (get_header w) (hk\<lparr>strong_count := strong_count hk + 1\<rparr>)
                 (after_others Strong (get_header w) es k m))))"
  using assms
proof (induction es arbitrary: m h)
  case Nil
  then show ?case
    by (simp add: weak_upgrade_loop.simps)
next
  case (Cons e es)
  let ?q = "get_header w"
  show ?case
  proof (cases "strong_count h = 0 \<or> strong_count h > ARC_WEAK_MAX_REFS - 1")
    case True
    have "0 \<le> length (e # es) \<and>
       header_at (after_others Strong ?q (e # es) 0 m) ?q = Some h \<and>
       weak_upgrade_loop (e # es) w (strong_count h) m =
         (if strong_count h = 0
          then Ret None ((after_others Strong ?q (e # es) 0 m)\<lparr>errno := Some ENOENT\<rparr>)
          else if strong_count h > ARC_WEAK_MAX_REFS - 1
          then Ret None ((after_others Strong ?q (e # es) 0 m)\<lparr>errno := Some ETOOMANYREFS\<rparr>)
          else Ret (Some w) (store_header ?q (h\<lparr>strong_count := strong_count h + 1\<rparr>)
                 (after_others Strong ?q (e # es) 0 m)))"
      using True Cons.prems by (auto simp: weak_upgrade_loop.simps)
    then show ?thesis by blast
  next
    case False
    from cas_live [OF Cons.prems, of Strong e "strong_count h" "strong_count h + 1"]
    obtain h1 where h1: "header_at (interfere Strong ?q e m) ?q = Some h1"
      and cas: "atomic_compare_exchange_weak e Strong ?q (strong_count h) (strong_count h + 1) m =
        Some (if e \<noteq> Spurious \<and> count_of Strong h1 = strong_count h
             then (True, strong_count h, store_header ?q (set_count Strong (strong_count h + 1) h1) (interfere Strong ?q e m))
             else (False, count_of Strong h1, interfere Strong ?q e m))"
      by blast
    show ?thesis
    proof (cases "e \<noteq> Spurious \<and> strong_count h1 = strong_count h")
      case True
      have "Suc 0 \<le> length (e # es) \<and>
        header_at (after_others Strong ?q (e # es) (Suc 0) m) ?q = Some h1 \<and>
        weak_upgrade_loop (e # es) w (strong_count h) m =
         (if strong_count h1 = 0
          then Ret None ((after_others Strong ?q (e # es) (Suc 0) m)\<lparr>errno := Some ENOENT\<rparr>)
          else if strong_count h1 > ARC_WEAK_MAX_REFS - 1
          then Ret None ((after_others Strong ?q (e # es) (Suc 0) m)\<lparr>errno := Some ETOOMANYREFS\<rparr>)
          else Ret (Some w) (store_header ?q (h1\<lparr>strong_count := strong_count h1 + 1\<rparr>)
                 (after_others Strong ?q (e # es) (Suc 0) m)))"
        using True False h1 cas by (simp add: weak_upgrade_loop.simps [of "e # es"])
      then show ?thesis by blast
    next
      case fail: False
      have step: "weak_upgrade_loop (e # es) w (strong_count h) m =
          weak_upgrade_loop es w (strong_count h1) (interfere Strong ?q e m)"
        using fail False cas by (auto simp: weak_upgrade_loop.simps [of "e # es"])
      have notq: "e \<noteq> Quiet"
        using fail h1 Cons.prems by (cases e) auto
      from Cons.IH [OF h1] show ?thesis
      proof (elim disjE exE conjE)
        assume "weak_upgrade_loop es w (strong_count h1) (interfere Strong ?q e m) = Spin"
          and "Quiet \<notin> set es"
        then show ?thesis using step notq by simp
      next
        fix k hk
        assume k: "k \<le> length es"
          and hk: "header_at (after_others Strong ?q es k (interfere Strong ?q e m)) ?q = Some hk"
          and res: "weak_upgrade_loop es w (strong_count h1) (interfere Strong ?q e m) =
            (if strong_count hk = 0
             then Ret None ((after_others Strong ?q es k (interfere Strong ?q e m))\<lparr>errno := Some ENOENT\<rparr>)
             else if strong_count hk > ARC_WEAK_MAX_REFS - 1
             then Ret None ((after_others Strong ?q es k (interfere Strong ?q e m))\<lparr>errno := Some ETOOMANYREFS\<rparr>)
             else Ret (Some w) (store_header ?q (hk\<lparr>strong_count := strong_count hk + 1\<rparr>)
                 (after_others Strong ?q es k (interfere Strong ?q e m))))"
        have "Suc k \<le> length (e # es) \<and>
          header_at (after_others Strong ?q (e # es) (Suc k) m) ?q = Some hk \<and>
          weak_upgrade_loop (e # es) w (strong_count h) m =
           (if strong_count hk = 0
            then Ret None ((after_others Strong ?q (e # es) (Suc k) m)\<lparr>errno := Some ENOENT\<rparr>)
            else if strong_count hk > ARC_WEAK_MAX_REFS - 1
            then Ret None ((after_others Strong ?q (e # es) (Suc k) m)\<lparr>errno := Some ETOOMANYREFS\<rparr>)
            else Ret (Some w) (store_header ?q (hk\<lparr>strong_count := strong_count hk + 1\<rparr>)
                 (after_others Strong ?q (e # es) (Suc k) m)))"
          using k hk res step by simp
        then show ?thesis by blast
      qed
    qed
  qed
qed

lemma arc_downgrade_loop_outcome:
  assumes "header_at m (get_header p) = Some h"
  shows "(arc_downgrade_loop es p (weak_count h) m = Spin \<and> Quiet \<notin> set es) \<or>
    (\<exists>k hk. k < length es \<and>
       header_at (after_others Weak (get_header p) es (Suc k) m) (get_header p) = Some hk \<and>
       arc_downgrade_loop es p (weak_count h) m =
         Ret (Some p) (store_header (get_header p) (hk\<lparr>weak_count := weak_count hk + 1\<rparr>)
                 (after_others Weak (get_header p) es (Suc k) m)))"
  using assms
proof (induction es arbitrary: m h)
  case Nil
  then show ?case by simp
next
  case (Cons e es)
  let ?q = "get_header p"
  from cas_live [OF Cons.prems, of Weak e "weak_count h" "weak_count h + 1"]
  obtain h1 where h1: "header_at (interfere Weak ?q e m) ?q = Some h1"
    and cas: "atomic_compare_exchange_weak e Weak ?q (weak_count h) (weak_count h + 1) m =
      Some (if e \<noteq> Spurious \<and> count_of Weak h1 = weak_count h
           then (True, weak_count h, store_header ?q (set_count Weak (weak_count h + 1) h1) (interfere Weak ?q e m))
           else (False, count_of Weak h1, interfere Weak ?q e m))"
    by blast
  show ?case
  proof (cases "e \<noteq> Spurious \<and> weak_count h1 = weak_count h")
    case True
    have "0 < length (e # es) \<and>
      header_at (after_others Weak ?q (e # es) (Suc 0) m) ?q = Some h1 \<and>
      arc_downgrade_loop (e # es) p (weak_count h) m =
        Ret (Some p) (store_header ?q (h1\<lparr>weak_count := weak_count h1 + 1\<rparr>)
               (after_others Weak ?q (e # es) (Suc 0) m))"
      using True h1 cas by simp
    then show ?thesis by blast
  next
    case fail: False
    have step: "arc_downgrade_loop (e # es) p (weak_count h) m =
        arc_downgrade_loop es p (weak_count h1) (interfere Weak ?q e m)"
      using fail cas by auto
    have notq: "e \<noteq> Quiet"
      using fail h1 Cons.prems by (cases e) auto
    from Cons.IH [OF h1] show ?thesis
    proof (elim disjE exE conjE)
      assume "arc_downgrade_loop es p (weak_count h1) (interfere Weak ?q e m) = Spin"
        and "Quiet \<notin> set es"
      then show ?thesis using step notq by simp
    next
      fix k hk
      assume k: "k < length es"
        and hk: "header_at (after_others Weak ?q es (Suc k) (interfere Weak ?q e m)) ?q = Some hk"
        and res: "arc_downgrade_loop es p (weak_count h1) (interfere Weak ?q e m) =
           Ret (Some p) (store_header ?q (hk\<lparr>weak_count := weak_count hk + 1\<rparr>)
               (after_others Weak ?q es (Suc k) (interfere Weak ?q e m)))"
      have "Suc k < length (e # es) \<and>
        header_at (after_others Weak ?q (e # es) (Suc (Suc k)) m) ?q = Some hk \<and>
        arc_downgrade_loop (e # es) p (weak_count h) m =
          Ret (Some p) (store_header ?q (hk\<lparr>weak_count := weak_count hk + 1\<rparr>)
               (after_others Weak ?q (e # es) (Suc (Suc k)) m))"
        using k hk res step by simp
      then show ?thesis by blast
    qed
  qed
qed

lemma weak_upgrade_live:
  "header_at m (get_header w) = Some h \<Longrightarrow>
     weak_upgrade es w m = weak_upgrade_loop es w (strong_count h) m"
  by (simp add: weak_upgrade_def atomic_load_def)

lemma arc_downgrade_live:
  "header_at m (get_header p) = Some h \<Longrightarrow>
     arc_downgrade es p m = arc_downgrade_loop es p (weak_count h) m"
  by (simp add: arc_downgrade_def atomic_load_def)

lemma get_header_handle [simp]: "get_header 4112 = 4096"
  by (simp add: get_header_def ARC_HEADER_SIZE_WITH_PAD_eq)

lemma header_at_arc_machine [simp]:
  "header_at (arc_machine w s) 4096 = Some \<lparr>weak_count = w, strong_count = s\<rparr>"
  by (simp add: header_at_def arc_machine_def sizeof_arc_header_t_def)

lemma store_header_arc_machine [simp]:
  "store_header 4096 \<lparr>weak_count = w', strong_count = s'\<rparr> (arc_machine w s) = arc_machine w' s'"
  by (simp add: store_header_def arc_machine_def)

subsection \<open>Creation\<close>

text \<open>
  When the sum of header size and payload size does not wrap, a successful allocation is
  initialised with both counters at 1 and the handle points just behind the header.
\<close>

lemma arc_new_fits:
  assumes "n \<noteq> 0" and "n \<le> SIZE_MAX - ARC_HEADER_SIZE_WITH_PAD"
  shows "arc_new (Some (base, junk)) n m =
     Ret (Some (base + ARC_HEADER_SIZE_WITH_PAD))
       (m\<lparr>heap := (heap m)(base \<mapsto> \<lparr>bsize = ARC_HEADER_SIZE_WITH_PAD + n,
                                      hdr = \<lparr>weak_count = 1, strong_count = 1\<rparr>\<rparr>)\<rparr>)"
proof -
  from assms(2) have "unat n \<le> 2 ^ 64 - 17"
    by (simp add: SIZE_MAX_def ARC_HEADER_SIZE_WITH_PAD_eq word_le_nat_alt)
  then have "unat (16 + n) = 16 + unat n"
    by (simp add: unat_word_ariths)
  then have "(16 :: size_t) \<le> 16 + n"
    by (simp add: word_le_nat_alt)
  then show ?thesis
    using assms(1)
    by (cases junk)
      (simp add: arc_new_def malloc_def atomic_init_def store_count_def header_at_def
        store_header_def ARC_HEADER_SIZE_WITH_PAD_eq sizeof_arc_header_t_def)
qed

lemma get_header_inverse: "get_header (base + ARC_HEADER_SIZE_WITH_PAD) = base"
  by (simp add: get_header_def)

lemma arc_new_returns_live:
  assumes "arc_new answer n m = Ret (Some p) m0"
  shows "header_at m0 (get_header p) = Some \<lparr>weak_count = 1, strong_count = 1\<rparr>"
  using assms
  by (auto simp: arc_new_def malloc_def atomic_init_def store_count_def header_at_def
      store_header_def get_header_def split: if_splits option.splits prod.splits)

text \<open>
  C7. A request for a payload of 0 bytes fails: \<^verbatim>\<open>arc_new\<close> returns \<^verbatim>\<open>NULL\<close>, which is how
  it signals the invalid size, without asking the allocator (the result does not depend on
  the allocator's answer) and without changing the machine: no block is added, \<^verbatim>\<open>errno\<close>
  is not written.
\<close>

theorem arc_new_zero_size: "arc_new answer 0 m = Ret None m"
  by (simp add: arc_new_def)

text \<open>
  C6. The size handed to \<^verbatim>\<open>malloc\<close> is the sum of padded header size and payload size in
  \<^verbatim>\<open>size_t\<close> arithmetic. For the payload size \<^verbatim>\<open>SIZE_MAX\<close> the sum wraps to 15: whatever
  block the allocator returns for 15 bytes is too small for the 16-byte header, and the
  two initialising stores leave the block.
\<close>

theorem arc_new_size_wraps:
  "ARC_HEADER_SIZE_WITH_PAD + SIZE_MAX = 15 \<and> arc_new (Some (base, junk)) SIZE_MAX m = UB"
  by (simp add: arc_new_def malloc_def atomic_init_def store_count_def header_at_def
      ARC_HEADER_SIZE_WITH_PAD_eq SIZE_MAX_def sizeof_arc_header_t_def)

subsection \<open>Strong free\<close>

text \<open>
  C2. Let \<open>h\<close> be the header behind the strong handle \<open>p\<close>. If \<open>strong_count\<close> is 1,
  \<^verbatim>\<open>arc_free\<close> stores 0, calls the destructor once on \<open>p\<close> when one is given (the call is
  logged in \<open>destroyed\<close> before the callback runs; no call for \<^verbatim>\<open>NULL\<close>), and finishes as
  \<^verbatim>\<open>weak_free\<close> on the same address \<open>p\<close>. If \<open>strong_count\<close> is greater than 1, the machine
  changes in \<open>strong_count\<close> only, which is decremented: no destructor call, \<open>weak_count\<close>
  untouched.
\<close>

theorem arc_free_last_owner:
  assumes "header_at m (get_header p) = Some h"
  shows "(strong_count h = 1 \<longrightarrow>
            arc_free p d m =
              weak_free p (call_destructor d p
                (store_header (get_header p) (h\<lparr>strong_count := 0\<rparr>) m))) \<and>
         (1 < strong_count h \<longrightarrow>
            arc_free p d m =
              Ret () (store_header (get_header p) (h\<lparr>strong_count := strong_count h - 1\<rparr>) m)) \<and>
         call_destructor None p m1 = m1 \<and>
         call_destructor (Some f) p m1 = f p (m1\<lparr>destroyed := destroyed m1 @ [p]\<rparr>)"
  using assms by (auto simp: arc_free_live call_destructor_def)

theorem arc_free_last_owner_witness:
  "header_at (arc_machine 2 1) (get_header 4112) = Some \<lparr>weak_count = 2, strong_count = 1\<rparr> \<and>
   arc_free 4112 idle_destructor (arc_machine 2 1) = Ret () ((arc_machine 1 0)\<lparr>destroyed := [4112]\<rparr>) \<and>
   header_at (arc_machine 1 3) (get_header 4112) = Some \<lparr>weak_count = 1, strong_count = 3\<rparr> \<and>
   arc_free 4112 idle_destructor (arc_machine 1 3) = Ret () (arc_machine 1 2)"
  using arc_free_last_owner [of "arc_machine 2 1" 4112 "\<lparr>weak_count = 2, strong_count = 1\<rparr>" idle_destructor]
    arc_free_last_owner [of "arc_machine 1 3" 4112 "\<lparr>weak_count = 1, strong_count = 3\<rparr>" idle_destructor]
  by (simp add: idle_destructor_def call_destructor_def weak_free_live header_at_def store_header_def
      arc_machine_def sizeof_arc_header_t_def)

subsection \<open>Ceiling, environment and allocation bookkeeping\<close>

lemma size_max_half: "SIZE_MAX div 2 = ARC_WEAK_MAX_REFS"
  by (simp add: SIZE_MAX_def ARC_WEAK_MAX_REFS_eq)

lemma above_ceiling: "(ARC_WEAK_MAX_REFS - 1 < x) = (SIZE_MAX div 2 \<le> x)"
  by (simp add: size_max_half ARC_WEAK_MAX_REFS_eq word_less_nat_alt word_le_nat_alt) arith

lemma below_ceiling_no_wrap:
  "x < SIZE_MAX div 2 \<Longrightarrow> unat (x + 1) = unat x + 1"
  by (simp add: size_max_half ARC_WEAK_MAX_REFS_eq word_less_nat_alt unat_word_ariths)

lemma interfere_dom [simp]: "dom (heap (interfere c p e m)) = dom (heap m)"
  by (cases e) (auto simp: store_count_def split: option.splits)

lemma after_others_fields [simp]:
  "freed (after_others c p es k m) = freed m"
  "destroyed (after_others c p es k m) = destroyed m"
  "errno (after_others c p es k m) = errno m"
  "dom (heap (after_others c p es k m)) = dom (heap m)"
proof -
  have "freed (fold (interfere c p) xs m) = freed m \<and>
        destroyed (fold (interfere c p) xs m) = destroyed m \<and>
        errno (fold (interfere c p) xs m) = errno m \<and>
        dom (heap (fold (interfere c p) xs m)) = dom (heap m)" for xs
    by (induction xs arbitrary: m) simp_all
  then show "freed (after_others c p es k m) = freed m"
    "destroyed (after_others c p es k m) = destroyed m"
    "errno (after_others c p es k m) = errno m"
    "dom (heap (after_others c p es k m)) = dom (heap m)"
    by (simp_all add: after_others_def)
qed

lemma after_others_undisturbed:
  "\<forall>v. Store v \<notin> set es \<Longrightarrow> after_others c p es k m = m"
proof (induction es arbitrary: k)
  case Nil
  then show ?case by (simp add: after_others_def)
next
  case (Cons e es)
  then have "interfere c p e m = m" by (cases e) auto
  with Cons show ?case by (cases k) simp_all
qed

lemma weak_upgrade_cases:
  assumes "header_at m (get_header w) = Some h"
  shows "(weak_upgrade es w m = Spin \<and> Quiet \<notin> set es) \<or>
    (\<exists>k hk. k \<le> length es \<and>
       header_at (after_others Strong (get_header w) es k m) (get_header w) = Some hk \<and>
       weak_upgrade es w m =
         (if strong_count hk = 0
          then Ret None ((after_others Strong (get_header w) es k m)\<lparr>errno := Some ENOENT\<rparr>)
          else if SIZE_MAX div 2 \<le> strong_count hk
          then Ret None ((after_others Strong (get_header w) es k m)\<lparr>errno := Some ETOOMANYREFS\<rparr>)
          else Ret (Some w) (store_header (get_header w) (hk\<lparr>strong_count := strong_count hk + 1\<rparr>)
                 (after_others Strong (get_header w) es k m))))"
  unfolding weak_upgrade_live [OF assms]
  using weak_upgrade_loop_outcome [OF assms, of es, unfolded above_ceiling] .

lemma arc_clone_keeps:
  assumes "arc_clone p m = Ret r m'"
  shows "freed m' = freed m \<and> dom (heap m') = dom (heap m)"
proof (cases "header_at m (get_header p)")
  case None
  with assms show ?thesis by (simp add: arc_clone_def atomic_fetch_add_def)
next
  case (Some h)
  from assms show ?thesis
    unfolding arc_clone_live [OF Some] by (clarsimp split: if_splits)
qed

lemma weak_clone_keeps:
  assumes "weak_clone p m = Ret r m'"
  shows "freed m' = freed m \<and> dom (heap m') = dom (heap m)"
proof (cases "header_at m (get_header p)")
  case None
  with assms show ?thesis by (simp add: weak_clone_def atomic_fetch_add_def)
next
  case (Some h)
  from assms show ?thesis
    unfolding weak_clone_live [OF Some] by (clarsimp split: if_splits)
qed

lemma arc_new_keeps:
  "arc_new a n m = Ret r m' \<Longrightarrow> freed m' = freed m \<and> dom (heap m) \<subseteq> dom (heap m')"
  by (clarsimp simp: arc_new_def malloc_def atomic_init_def store_count_def subset_insertI
      split: if_splits option.splits prod.splits)

lemma weak_upgrade_keeps:
  assumes "weak_upgrade es p m = Ret r m'"
  shows "freed m' = freed m \<and> dom (heap m') = dom (heap m)"
proof (cases "header_at m (get_header p)")
  case None
  with assms show ?thesis by (simp add: weak_upgrade_def atomic_load_def)
next
  case (Some h)
  let ?q = "get_header p"
  from weak_upgrade_cases [OF Some, of es] assms
  obtain k hk where "Ret r m' =
         (if strong_count hk = 0
          then Ret None ((after_others Strong ?q es k m)\<lparr>errno := Some ENOENT\<rparr>)
          else if SIZE_MAX div 2 \<le> strong_count hk
          then Ret None ((after_others Strong ?q es k m)\<lparr>errno := Some ETOOMANYREFS\<rparr>)
          else Ret (Some p) (store_header ?q (hk\<lparr>strong_count := strong_count hk + 1\<rparr>)
                 (after_others Strong ?q es k m)))"
    by auto
  then have "m' = (after_others Strong ?q es k m)\<lparr>errno := Some ENOENT\<rparr> \<or>
      m' = (after_others Strong ?q es k m)\<lparr>errno := Some ETOOMANYREFS\<rparr> \<or>
      m' = store_header ?q (hk\<lparr>strong_count := strong_count hk + 1\<rparr>) (after_others Strong ?q es k m)"
    by (simp split: if_splits)
  then show ?thesis
    by (elim disjE) simp_all
qed

lemma arc_downgrade_cases:
  assumes "header_at m (get_header p) = Some h"
  shows "(arc_downgrade es p m = Spin \<and> Quiet \<notin> set es) \<or>
    (\<exists>k hk. k < length es \<and>
       header_at (after_others Weak (get_header p) es (Suc k) m) (get_header p) = Some hk \<and>
       arc_downgrade es p m =
         Ret (Some p) (store_header (get_header p) (hk\<lparr>weak_count := weak_count hk + 1\<rparr>)
                 (after_others Weak (get_header p) es (Suc k) m)))"
  unfolding arc_downgrade_live [OF assms]
  using arc_downgrade_loop_outcome [OF assms, of es] .

lemma arc_downgrade_keeps:
  assumes "arc_downgrade es p m = Ret r m'"
  shows "freed m' = freed m \<and> dom (heap m') = dom (heap m)"
proof (cases "header_at m (get_header p)")
  case None
  with assms show ?thesis by (simp add: arc_downgrade_def atomic_load_def)
next
  case (Some h)
  from arc_downgrade_cases [OF Some, of es] assms show ?thesis
    by clarsimp
qed

subsection \<open>Clone\<close>

text \<open>
  C5, as the claim states it, fails at the ceiling itself: a counter equal to
  \<^verbatim>\<open>SIZE_MAX/2\<close> does not exceed \<^verbatim>\<open>SIZE_MAX/2\<close>, and still \<^verbatim>\<open>arc_clone\<close> and \<^verbatim>\<open>weak_clone\<close>
  return \<^verbatim>\<open>NULL\<close> with \<^verbatim>\<open>errno = ETOOMANYREFS\<close> (the counter is left incremented).
\<close>

theorem clone_overflow_counterexample:
  "\<not> SIZE_MAX div 2 < (0x7FFFFFFFFFFFFFFF :: size_t) \<and>
   arc_clone 4112 (arc_machine 1 0x7FFFFFFFFFFFFFFF) =
     Ret None ((arc_machine 1 0x8000000000000000)\<lparr>errno := Some ETOOMANYREFS\<rparr>) \<and>
   weak_clone 4112 (arc_machine 0x7FFFFFFFFFFFFFFF 1) =
     Ret None ((arc_machine 0x8000000000000000 1)\<lparr>errno := Some ETOOMANYREFS\<rparr>)"
  by (simp add: arc_clone_live weak_clone_live ARC_WEAK_MAX_REFS_eq SIZE_MAX_def)

text \<open>
  C5, amended. Let \<open>h\<close> be the header behind the handle \<open>p\<close>. \<^verbatim>\<open>arc_clone\<close> and
  \<^verbatim>\<open>weak_clone\<close> fail (\<^verbatim>\<open>NULL\<close>, \<^verbatim>\<open>errno = ETOOMANYREFS\<close>) exactly when the counter they found
  is at least \<^verbatim>\<open>SIZE_MAX/2\<close>, that is, exceeds \<^verbatim>\<open>SIZE_MAX/2 - 1\<close>; the counter is then left
  as the fetch-and-add incremented it. Otherwise they return the handle they were given,
  with the counter incremented by 1, and this increment does not wrap.
\<close>

theorem clone_overflow_ceiling:
  assumes "header_at m (get_header p) = Some h"
  shows "arc_clone p m =
           (if SIZE_MAX div 2 \<le> strong_count h
            then Ret None ((store_header (get_header p) (h\<lparr>strong_count := strong_count h + 1\<rparr>) m)
                             \<lparr>errno := Some ETOOMANYREFS\<rparr>)
            else Ret (Some p) (store_header (get_header p) (h\<lparr>strong_count := strong_count h + 1\<rparr>) m)) \<and>
         weak_clone p m =
           (if SIZE_MAX div 2 \<le> weak_count h
            then Ret None ((store_header (get_header p) (h\<lparr>weak_count := weak_count h + 1\<rparr>) m)
                             \<lparr>errno := Some ETOOMANYREFS\<rparr>)
            else Ret (Some p) (store_header (get_header p) (h\<lparr>weak_count := weak_count h + 1\<rparr>) m)) \<and>
         (strong_count h < SIZE_MAX div 2 \<longrightarrow> unat (strong_count h + 1) = unat (strong_count h) + 1) \<and>
         (weak_count h < SIZE_MAX div 2 \<longrightarrow> unat (weak_count h + 1) = unat (weak_count h) + 1)"
  by (simp add: arc_clone_live [OF assms] weak_clone_live [OF assms] above_ceiling below_ceiling_no_wrap)

theorem clone_overflow_ceiling_witness:
  "header_at (arc_machine 2 0x7FFFFFFFFFFFFFFE) (get_header 4112) =
     Some \<lparr>weak_count = 2, strong_count = 0x7FFFFFFFFFFFFFFE\<rparr> \<and>
   arc_clone 4112 (arc_machine 2 0x7FFFFFFFFFFFFFFE) = Ret (Some 4112) (arc_machine 2 0x7FFFFFFFFFFFFFFF) \<and>
   weak_clone 4112 (arc_machine 2 0x7FFFFFFFFFFFFFFE) = Ret (Some 4112) (arc_machine 3 0x7FFFFFFFFFFFFFFE) \<and>
   unat (0x7FFFFFFFFFFFFFFE + 1 :: size_t) = unat (0x7FFFFFFFFFFFFFFE :: size_t) + 1 \<and>
   header_at (arc_machine 0x7FFFFFFFFFFFFFFF 2) (get_header 4112) =
     Some \<lparr>weak_count = 0x7FFFFFFFFFFFFFFF, strong_count = 2\<rparr> \<and>
   weak_clone 4112 (arc_machine 0x7FFFFFFFFFFFFFFF 2) =
     Ret None ((arc_machine 0x8000000000000000 2)\<lparr>errno := Some ETOOMANYREFS\<rparr>)"
  using clone_overflow_ceiling [of "arc_machine 2 0x7FFFFFFFFFFFFFFE" 4112
      "\<lparr>weak_count = 2, strong_count = 0x7FFFFFFFFFFFFFFE\<rparr>"]
    clone_overflow_ceiling [of "arc_machine 0x7FFFFFFFFFFFFFFF 2" 4112
      "\<lparr>weak_count = 0x7FFFFFFFFFFFFFFF, strong_count = 2\<rparr>"]
  by (simp add: SIZE_MAX_def)

subsection \<open>Upgrade\<close>

lemma weak_upgrade_quiet:
  assumes "header_at m (get_header w) = Some h"
  shows "weak_upgrade (Quiet # es) w m =
         (if strong_count h = 0
          then Ret None (m\<lparr>errno := Some ENOENT\<rparr>)
          else if SIZE_MAX div 2 \<le> strong_count h
          then Ret None (m\<lparr>errno := Some ETOOMANYREFS\<rparr>)
          else Ret (Some w) (store_header (get_header w) (h\<lparr>strong_count := strong_count h + 1\<rparr>) m))"
  using assms cas_quiet [OF assms, of Strong "strong_count h + 1"]
  by (simp add: weak_upgrade_live [OF assms] weak_upgrade_loop.simps [of "Quiet # es"] above_ceiling)

lemma weak_upgrade_spurious:
  assumes "header_at m (get_header w) = Some h"
    and "strong_count h \<noteq> 0" and "\<not> SIZE_MAX div 2 \<le> strong_count h"
  shows "weak_upgrade (Spurious # es) w m = weak_upgrade es w m"
  using assms
  by (simp add: weak_upgrade_live [OF assms(1)] weak_upgrade_loop.simps [of "Spurious # es"]
      above_ceiling atomic_compare_exchange_weak_def)

lemma weak_upgrade_nil:
  assumes "header_at m (get_header w) = Some h"
  shows "weak_upgrade [] w m =
         (if strong_count h = 0
          then Ret None (m\<lparr>errno := Some ENOENT\<rparr>)
          else if SIZE_MAX div 2 \<le> strong_count h
          then Ret None (m\<lparr>errno := Some ETOOMANYREFS\<rparr>)
          else Spin)"
  by (simp add: weak_upgrade_live [OF assms] weak_upgrade_loop.simps [of "[]"] above_ceiling)

lemma weak_upgrade_refuses:
  assumes "header_at m (get_header w) = Some h"
  shows "strong_count h = 0 \<Longrightarrow> weak_upgrade es w m = Ret None (m\<lparr>errno := Some ENOENT\<rparr>)"
    and "SIZE_MAX div 2 \<le> strong_count h \<Longrightarrow> strong_count h \<noteq> 0 \<Longrightarrow>
         weak_upgrade es w m = Ret None (m\<lparr>errno := Some ETOOMANYREFS\<rparr>)"
  by (simp_all add: weak_upgrade_live [OF assms] weak_upgrade_loop.simps [of es] above_ceiling)

lemma ceiling_nonzero: "SIZE_MAX div 2 \<le> (x :: size_t) \<Longrightarrow> x \<noteq> 0"
  by (auto simp: size_max_half ARC_WEAK_MAX_REFS_eq)

lemma weak_upgrade_attempt:
  assumes "header_at m (get_header w) = Some h"
    and "strong_count h \<noteq> 0" and "\<not> SIZE_MAX div 2 \<le> strong_count h"
  shows "\<exists>h1. header_at (interfere Strong (get_header w) e m) (get_header w) = Some h1 \<and>
     weak_upgrade (e # es) w m =
       (if e \<noteq> Spurious \<and> strong_count h1 = strong_count h
        then Ret (Some w) (store_header (get_header w) (h1\<lparr>strong_count := strong_count h + 1\<rparr>)
               (interfere Strong (get_header w) e m))
        else weak_upgrade es w (interfere Strong (get_header w) e m))"
proof -
  let ?q = "get_header w"
  from cas_live [OF assms(1), of Strong e "strong_count h" "strong_count h + 1"]
  obtain h1 where h1: "header_at (interfere Strong ?q e m) ?q = Some h1"
    and cas: "atomic_compare_exchange_weak e Strong ?q (strong_count h) (strong_count h + 1) m =
      Some (if e \<noteq> Spurious \<and> count_of Strong h1 = strong_count h
           then (True, strong_count h, store_header ?q (set_count Strong (strong_count h + 1) h1) (interfere Strong ?q e m))
           else (False, count_of Strong h1, interfere Strong ?q e m))"
    by blast
  have "weak_upgrade (e # es) w m =
       (if e \<noteq> Spurious \<and> strong_count h1 = strong_count h
        then Ret (Some w) (store_header ?q (h1\<lparr>strong_count := strong_count h + 1\<rparr>)
               (interfere Strong ?q e m))
        else weak_upgrade es w (interfere Strong ?q e m))"
    using assms(2,3) cas
    by (simp add: weak_upgrade_live [OF assms(1)] weak_upgrade_live [OF h1]
        weak_upgrade_loop.simps [of "e # es"] above_ceiling)
  with h1 show ?thesis by blast
qed

lemma weak_upgrade_after_spurious:
  assumes "header_at m (get_header w) = Some h"
  shows "weak_upgrade (replicate n Spurious @ Quiet # es) w m =
         (if strong_count h = 0
          then Ret None (m\<lparr>errno := Some ENOENT\<rparr>)
          else if SIZE_MAX div 2 \<le> strong_count h
          then Ret None (m\<lparr>errno := Some ETOOMANYREFS\<rparr>)
          else Ret (Some w) (store_header (get_header w) (h\<lparr>strong_count := strong_count h + 1\<rparr>) m))"
proof (cases "strong_count h = 0 \<or> SIZE_MAX div 2 \<le> strong_count h")
  case True
  then show ?thesis
    using weak_upgrade_refuses [OF assms, of "replicate n Spurious @ Quiet # es"]
    by (auto dest: ceiling_nonzero)
next
  case False
  then have "weak_upgrade (replicate n Spurious @ Quiet # es) w m = weak_upgrade (Quiet # es) w m"
    by (induction n) (simp_all add: weak_upgrade_spurious [OF assms])
  then show ?thesis
    by (simp add: weak_upgrade_quiet [OF assms])
qed

text \<open>
  C3, as the claim states it, fails at the ceiling itself: with \<open>strong_count\<close> equal to
  \<^verbatim>\<open>SIZE_MAX/2\<close>, which is greater than 0 and does not exceed \<^verbatim>\<open>SIZE_MAX/2\<close>, an undisturbed
  \<^verbatim>\<open>weak_upgrade\<close> does not succeed but returns \<^verbatim>\<open>NULL\<close> with \<^verbatim>\<open>errno = ETOOMANYREFS\<close>.
\<close>

theorem weak_upgrade_counterexample:
  "(0 :: size_t) < 0x7FFFFFFFFFFFFFFF \<and> \<not> SIZE_MAX div 2 < (0x7FFFFFFFFFFFFFFF :: size_t) \<and>
   weak_upgrade [Quiet] 4112 (arc_machine 1 0x7FFFFFFFFFFFFFFF) =
     Ret None ((arc_machine 1 0x7FFFFFFFFFFFFFFF)\<lparr>errno := Some ETOOMANYREFS\<rparr>)"
  by (simp add: weak_upgrade_def atomic_load_def weak_upgrade_loop.simps ARC_WEAK_MAX_REFS_eq SIZE_MAX_def)

text \<open>
  C3, amended. Let \<open>h\<close> be the header behind the weak handle \<open>w\<close>, so that the
  \<open>strong_count\<close> of \<open>h\<close> is the value \<^verbatim>\<open>weak_upgrade\<close> loads first.
  \<^item> If it is 0, the call fails with \<^verbatim>\<open>errno = ENOENT\<close> at once: whatever the schedule,
    it leaves the machine as it found it, without any compare-and-swap or retry.
  \<^item> If it is at least \<^verbatim>\<open>SIZE_MAX/2\<close> (exceeds \<^verbatim>\<open>SIZE_MAX/2 - 1\<close>), the call fails with
    \<^verbatim>\<open>errno = ETOOMANYREFS\<close>, again at once.
  \<^item> If it is some \<open>v\<close> with \<open>0 < v < SIZE_MAX/2\<close>, the call attempts one compare-and-swap:
    with no event left it is still retrying; when the attempt is not spurious and the
    counter still holds \<open>v\<close>, the call succeeds, returning \<open>w\<close> with \<open>strong_count\<close> set to
    \<open>v + 1\<close>; otherwise it goes on exactly as a fresh call on the machine the other
    threads left, with the rest of the schedule.
  \<^item> Run alone, after any number of spurious failures, the call succeeds if and only if
    \<open>0 < v < SIZE_MAX/2\<close>.
  \<^item> Whenever the call returns, its result is the one these rules give for the header
    as the other threads left it after some number of events; it can fail to return only
    while every attempted compare-and-swap is disturbed.
\<close>

theorem weak_upgrade_outcome:
  assumes "header_at m (get_header w) = Some h"
  shows "(strong_count h = 0 \<longrightarrow>
            weak_upgrade es w m = Ret None (m\<lparr>errno := Some ENOENT\<rparr>)) \<and>
         (SIZE_MAX div 2 \<le> strong_count h \<longrightarrow>
            weak_upgrade es w m = Ret None (m\<lparr>errno := Some ETOOMANYREFS\<rparr>)) \<and>
         (0 < strong_count h \<and> strong_count h < SIZE_MAX div 2 \<longrightarrow>
            weak_upgrade [] w m = Spin \<and>
            (\<exists>h1. header_at (interfere Strong (get_header w) e m) (get_header w) = Some h1 \<and>
               weak_upgrade (e # es) w m =
                 (if e \<noteq> Spurious \<and> strong_count h1 = strong_count h
                  then Ret (Some w)
                         (store_header (get_header w) (h1\<lparr>strong_count := strong_count h + 1\<rparr>)
                           (interfere Strong (get_header w) e m))
                  else weak_upgrade es w (interfere Strong (get_header w) e m)))) \<and>
         weak_upgrade (replicate n Spurious @ Quiet # es) w m =
           (if strong_count h = 0
            then Ret None (m\<lparr>errno := Some ENOENT\<rparr>)
            else if SIZE_MAX div 2 \<le> strong_count h
            then Ret None (m\<lparr>errno := Some ETOOMANYREFS\<rparr>)
            else Ret (Some w) (store_header (get_header w) (h\<lparr>strong_count := strong_count h + 1\<rparr>) m)) \<and>
         ((weak_upgrade es w m = Spin \<and> Quiet \<notin> set es) \<or>
          (\<exists>k hk. k \<le> length es \<and>
             header_at (after_others Strong (get_header w) es k m) (get_header w) = Some hk \<and>
             weak_upgrade es w m =
               (if strong_count hk = 0
                then Ret None ((after_others Strong (get_header w) es k m)\<lparr>errno := Some ENOENT\<rparr>)
                else if SIZE_MAX div 2 \<le> strong_count hk
                then Ret None ((after_others Strong (get_header w) es k m)\<lparr>errno := Some ETOOMANYREFS\<rparr>)
                else Ret (Some w) (store_header (get_header w) (hk\<lparr>strong_count := strong_count hk + 1\<rparr>)
                       (after_others Strong (get_header w) es k m)))))"
proof (intro conjI impI)
  assume "strong_count h = 0"
  then show "weak_upgrade es w m = Ret None (m\<lparr>errno := Some ENOENT\<rparr>)"
    by (rule weak_upgrade_refuses(1) [OF assms])
next
  assume over: "SIZE_MAX div 2 \<le> strong_count h"
  then have "strong_count h \<noteq> 0" by (rule ceiling_nonzero)
  with over show "weak_upgrade es w m = Ret None (m\<lparr>errno := Some ETOOMANYREFS\<rparr>)"
    by (rule weak_upgrade_refuses(2) [OF assms])
next
  assume range: "0 < strong_count h \<and> strong_count h < SIZE_MAX div 2"
  from range have nz: "strong_count h \<noteq> 0"
    by auto
  from range have below: "\<not> SIZE_MAX div 2 \<le> strong_count h"
    using leD by blast
  from nz below show "weak_upgrade [] w m = Spin"
    by (simp add: weak_upgrade_nil [OF assms])
  from nz below show "\<exists>h1. header_at (interfere Strong (get_header w) e m) (get_header w) = Some h1 \<and>
               weak_upgrade (e # es) w m =
                 (if e \<noteq> Spurious \<and> strong_count h1 = strong_count h
                  then Ret (Some w)
                         (store_header (get_header w) (h1\<lparr>strong_count := strong_count h + 1\<rparr>)
                           (interfere Strong (get_header w) e m))
                  else weak_upgrade es w (interfere Strong (get_header w) e m))"
    by (rule weak_upgrade_attempt [OF assms])
next
  show "weak_upgrade (replicate n Spurious @ Quiet # es) w m =
           (if strong_count h = 0
            then Ret None (m\<lparr>errno := Some ENOENT\<rparr>)
            else if SIZE_MAX div 2 \<le> strong_count h
            then Ret None (m\<lparr>errno := Some ETOOMANYREFS\<rparr>)
            else Ret (Some w) (store_header (get_header w) (h\<lparr>strong_count := strong_count h + 1\<rparr>) m))"
    by (rule weak_upgrade_after_spurious [OF assms])
next
  show "(weak_upgrade es w m = Spin \<and> Quiet \<notin> set es) \<or>
          (\<exists>k hk. k \<le> length es \<and>
             header_at (after_others Strong (get_header w) es k m) (get_header w) = Some hk \<and>
             weak_upgrade es w m =
               (if strong_count hk = 0
                then Ret None ((after_others Strong (get_header w) es k m)\<lparr>errno := Some ENOENT\<rparr>)
                else if SIZE_MAX div 2 \<le> strong_count hk
                then Ret None ((after_others Strong (get_header w) es k m)\<lparr>errno := Some ETOOMANYREFS\<rparr>)
                else Ret (Some w) (store_header (get_header w) (hk\<lparr>strong_count := strong_count hk + 1\<rparr>)
                       (after_others Strong (get_header w) es k m))))"
    using weak_upgrade_cases [OF assms] .
qed

theorem weak_upgrade_outcome_witness:
  "header_at (arc_machine 1 2) (get_header 4112) = Some \<lparr>weak_count = 1, strong_count = 2\<rparr> \<and>
   weak_upgrade [Spurious, Quiet] 4112 (arc_machine 1 2) = Ret (Some 4112) (arc_machine 1 3) \<and>
   weak_upgrade [Store 5, Quiet] 4112 (arc_machine 1 2) = Ret (Some 4112) (arc_machine 1 6) \<and>
   header_at (arc_machine 1 0) (get_header 4112) = Some \<lparr>weak_count = 1, strong_count = 0\<rparr> \<and>
   weak_upgrade [Store 5, Quiet] 4112 (arc_machine 1 0) =
     Ret None ((arc_machine 1 0)\<lparr>errno := Some ENOENT\<rparr>) \<and>
   header_at (arc_machine 1 0x8000000000000000) (get_header 4112) =
     Some \<lparr>weak_count = 1, strong_count = 0x8000000000000000\<rparr> \<and>
   weak_upgrade [Store 5, Quiet] 4112 (arc_machine 1 0x8000000000000000) =
     Ret None ((arc_machine 1 0x8000000000000000)\<lparr>errno := Some ETOOMANYREFS\<rparr>)"
proof -
  have live5: "header_at (arc_machine 1 5) (get_header 4112) = Some \<lparr>weak_count = 1, strong_count = 5\<rparr>"
    by simp
  have moved: "interfere Strong (get_header 4112) (Store 5) (arc_machine 1 2) = arc_machine 1 5"
    by (simp add: store_count_def)
  have up: "weak_upgrade [Spurious, Quiet] 4112 (arc_machine 1 2) = Ret (Some 4112) (arc_machine 1 3)"
    by (simp add: weak_upgrade_spurious weak_upgrade_quiet SIZE_MAX_def)
  have retry: "weak_upgrade [Quiet] 4112 (arc_machine 1 5) = Ret (Some 4112) (arc_machine 1 6)"
    by (simp add: weak_upgrade_quiet SIZE_MAX_def)
  from weak_upgrade_outcome [of "arc_machine 1 2" 4112 "\<lparr>weak_count = 1, strong_count = 2\<rparr>"
      "[Quiet]" "Store 5" 0]
    weak_upgrade_outcome [of "arc_machine 1 0" 4112 "\<lparr>weak_count = 1, strong_count = 0\<rparr>"
      "[Store 5, Quiet]"]
    weak_upgrade_outcome [of "arc_machine 1 0x8000000000000000" 4112
      "\<lparr>weak_count = 1, strong_count = 0x8000000000000000\<rparr>" "[Store 5, Quiet]"]
    up retry moved live5
  show ?thesis by (simp add: SIZE_MAX_def)
qed

lemma header_at_errno [simp]: "header_at (m\<lparr>errno := e\<rparr>) p = header_at m p"
  by (simp add: header_at_def)

text \<open>
  C10. Let the header behind \<open>w\<close> be live. Whenever \<^verbatim>\<open>weak_upgrade\<close> returns \<^verbatim>\<open>NULL\<close>, the
  strong counter it observed last is 0 (\<^verbatim>\<open>errno = ENOENT\<close>) or at least \<^verbatim>\<open>SIZE_MAX/2\<close>
  (\<^verbatim>\<open>errno = ETOOMANYREFS\<close>), and the machine it leaves is the machine as the other threads
  left it, with \<^verbatim>\<open>errno\<close> written: no compare-and-swap of the call has stored anything.
  With no store by another thread, header, heap and both logs are exactly as before the
  call. A failing \<^verbatim>\<open>arc_clone\<close>, in contrast, leaves \<open>strong_count\<close> incremented.
\<close>

theorem weak_upgrade_failure_atomic:
  assumes "header_at m (get_header w) = Some h" and "weak_upgrade es w m = Ret None m'"
  shows "(\<exists>k hk e. k \<le> length es \<and>
            header_at (after_others Strong (get_header w) es k m) (get_header w) = Some hk \<and>
            (strong_count hk = 0 \<and> e = ENOENT \<or>
             SIZE_MAX div 2 \<le> strong_count hk \<and> e = ETOOMANYREFS) \<and>
            m' = (after_others Strong (get_header w) es k m)\<lparr>errno := Some e\<rparr>) \<and>
         ((\<forall>v. Store v \<notin> set es) \<longrightarrow>
            header_at m' (get_header w) = Some h \<and> heap m' = heap m \<and>
            freed m' = freed m \<and> destroyed m' = destroyed m) \<and>
         (\<forall>m''. arc_clone w m = Ret None m'' \<longrightarrow>
            header_at m'' (get_header w) = Some (h\<lparr>strong_count := strong_count h + 1\<rparr>))"
proof (intro conjI)
  let ?q = "get_header w"
  from weak_upgrade_cases [OF assms(1), of es] assms(2)
  obtain k hk where k: "k \<le> length es"
    and hk: "header_at (after_others Strong ?q es k m) ?q = Some hk"
    and res: "Ret None m' =
         (if strong_count hk = 0
          then Ret None ((after_others Strong ?q es k m)\<lparr>errno := Some ENOENT\<rparr>)
          else if SIZE_MAX div 2 \<le> strong_count hk
          then Ret None ((after_others Strong ?q es k m)\<lparr>errno := Some ETOOMANYREFS\<rparr>)
          else Ret (Some w) (store_header ?q (hk\<lparr>strong_count := strong_count hk + 1\<rparr>)
                 (after_others Strong ?q es k m)))"
    by auto
  from res have cases: "strong_count hk = 0 \<and> m' = (after_others Strong ?q es k m)\<lparr>errno := Some ENOENT\<rparr> \<or>
      SIZE_MAX div 2 \<le> strong_count hk \<and> m' = (after_others Strong ?q es k m)\<lparr>errno := Some ETOOMANYREFS\<rparr>"
    by (simp split: if_splits)
  with k hk show "\<exists>k hk e. k \<le> length es \<and>
            header_at (after_others Strong ?q es k m) ?q = Some hk \<and>
            (strong_count hk = 0 \<and> e = ENOENT \<or>
             SIZE_MAX div 2 \<le> strong_count hk \<and> e = ETOOMANYREFS) \<and>
            m' = (after_others Strong ?q es k m)\<lparr>errno := Some e\<rparr>"
    by blast
  show "(\<forall>v. Store v \<notin> set es) \<longrightarrow>
            header_at m' ?q = Some h \<and> heap m' = heap m \<and>
            freed m' = freed m \<and> destroyed m' = destroyed m"
  proof
    assume "\<forall>v. Store v \<notin> set es"
    then have "after_others Strong ?q es k m = m"
      by (rule after_others_undisturbed)
    with cases assms(1) show "header_at m' ?q = Some h \<and> heap m' = heap m \<and>
            freed m' = freed m \<and> destroyed m' = destroyed m"
      by (elim disjE conjE) simp_all
  qed
  show "\<forall>m''. arc_clone w m = Ret None m'' \<longrightarrow>
            header_at m'' ?q = Some (h\<lparr>strong_count := strong_count h + 1\<rparr>)"
    using assms(1)
    by (auto simp: arc_clone_live [OF assms(1)] header_at_store_header split: if_splits)
qed

theorem weak_upgrade_failure_atomic_witness:
  "header_at (arc_machine 3 0) (get_header 4112) = Some \<lparr>weak_count = 3, strong_count = 0\<rparr> \<and>
   weak_upgrade [Quiet] 4112 (arc_machine 3 0) = Ret None ((arc_machine 3 0)\<lparr>errno := Some ENOENT\<rparr>) \<and>
   header_at ((arc_machine 3 0)\<lparr>errno := Some ENOENT\<rparr>) (get_header 4112) =
     Some \<lparr>weak_count = 3, strong_count = 0\<rparr> \<and>
   heap ((arc_machine 3 0)\<lparr>errno := Some ENOENT\<rparr>) = heap (arc_machine 3 0)"
proof -
  have live: "header_at (arc_machine 3 0) (get_header 4112) = Some \<lparr>weak_count = 3, strong_count = 0\<rparr>"
    by simp
  have fails: "weak_upgrade [Quiet] 4112 (arc_machine 3 0) = Ret None ((arc_machine 3 0)\<lparr>errno := Some ENOENT\<rparr>)"
    by (simp add: weak_upgrade_quiet)
  from weak_upgrade_failure_atomic [OF live fails] live fails
  show ?thesis by simp
qed

subsection \<open>Downgrade\<close>

lemma arc_downgrade_quiet:
  assumes "header_at m (get_header p) = Some h"
  shows "arc_downgrade (Quiet # es) p m =
     Ret (Some p) (store_header (get_header p) (h\<lparr>weak_count := weak_count h + 1\<rparr>) m)"
  using assms cas_quiet [OF assms, of Weak "weak_count h + 1"]
  by (simp add: arc_downgrade_live [OF assms])

lemma arc_downgrade_spurious:
  assumes "header_at m (get_header p) = Some h"
  shows "arc_downgrade (Spurious # es) p m = arc_downgrade es p m"
  using assms
  by (simp add: arc_downgrade_live [OF assms] atomic_compare_exchange_weak_def)

text \<open>
  C8. Let the header behind the strong handle \<open>p\<close> be live. \<^verbatim>\<open>arc_downgrade\<close> has no
  failure result: either its loop is still retrying at the end of the schedule, which
  needs every attempted compare-and-swap to have been disturbed, or it returns \<open>p\<close>, and
  the machine is the one the other threads left with \<open>weak_count\<close> incremented by 1 (in
  \<^verbatim>\<open>size_t\<close> arithmetic: no ceiling is checked). Run alone, after any number of spurious
  failures, it returns \<open>p\<close> with \<open>weak_count\<close> one above the value before the call.
\<close>

theorem arc_downgrade_outcome:
  assumes "header_at m (get_header p) = Some h"
  shows "((arc_downgrade es p m = Spin \<and> Quiet \<notin> set es) \<or>
          (\<exists>k hk. k < length es \<and>
             header_at (after_others Weak (get_header p) es (Suc k) m) (get_header p) = Some hk \<and>
             arc_downgrade es p m =
               Ret (Some p) (store_header (get_header p) (hk\<lparr>weak_count := weak_count hk + 1\<rparr>)
                 (after_others Weak (get_header p) es (Suc k) m)))) \<and>
         arc_downgrade (replicate n Spurious @ Quiet # es') p m =
           Ret (Some p) (store_header (get_header p) (h\<lparr>weak_count := weak_count h + 1\<rparr>) m)"
proof
  show "(arc_downgrade es p m = Spin \<and> Quiet \<notin> set es) \<or>
          (\<exists>k hk. k < length es \<and>
             header_at (after_others Weak (get_header p) es (Suc k) m) (get_header p) = Some hk \<and>
             arc_downgrade es p m =
               Ret (Some p) (store_header (get_header p) (hk\<lparr>weak_count := weak_count hk + 1\<rparr>)
                 (after_others Weak (get_header p) es (Suc k) m)))"
    using arc_downgrade_cases [OF assms] .
  show "arc_downgrade (replicate n Spurious @ Quiet # es') p m =
           Ret (Some p) (store_header (get_header p) (h\<lparr>weak_count := weak_count h + 1\<rparr>) m)"
    by (induction n) (simp_all add: arc_downgrade_quiet [OF assms] arc_downgrade_spurious [OF assms])
qed

theorem arc_downgrade_outcome_witness:
  "header_at (arc_machine 1 1) (get_header 4112) = Some \<lparr>weak_count = 1, strong_count = 1\<rparr> \<and>
   arc_downgrade [Spurious, Quiet] 4112 (arc_machine 1 1) = Ret (Some 4112) (arc_machine 2 1) \<and>
   header_at (arc_machine 0x7FFFFFFFFFFFFFFF 1) (get_header 4112) =
     Some \<lparr>weak_count = 0x7FFFFFFFFFFFFFFF, strong_count = 1\<rparr> \<and>
   arc_downgrade [Quiet] 4112 (arc_machine 0x7FFFFFFFFFFFFFFF 1) =
     Ret (Some 4112) (arc_machine 0x8000000000000000 1)"
  using arc_downgrade_outcome [of "arc_machine 1 1" 4112 "\<lparr>weak_count = 1, strong_count = 1\<rparr>"
      "[Spurious, Quiet]" 1 "[]"]
    arc_downgrade_outcome [of "arc_machine 0x7FFFFFFFFFFFFFFF 1" 4112
      "\<lparr>weak_count = 0x7FFFFFFFFFFFFFFF, strong_count = 1\<rparr>" "[Quiet]" 0 "[]"]
  by simp

subsection \<open>Sequences of strong clones and frees\<close>

lemma uint_increment:
  "(x :: size_t) < SIZE_MAX div 2 \<Longrightarrow> uint (x + 1) = uint x + 1"
  by (simp add: size_max_half ARC_WEAK_MAX_REFS_eq word_less_def uint_word_ariths)

lemma uint_decrement:
  "(x :: size_t) \<noteq> 0 \<Longrightarrow> uint (x - 1) = uint x - 1"
  by (metis uint_minus_simple_alt unsigned_1 word_coorder.extremum word_le_sub1)

lemma strong_ops_count:
  assumes "header_at m (get_header p) = Some h" and "strong_count h \<noteq> 0"
    and "strong_ops p d ops m = Some m'"
  shows "\<exists>h'. header_at m' (get_header p) = Some h' \<and> strong_count h' \<noteq> 0 \<and>
           weak_count h' = weak_count h \<and>
           uint (strong_count h') =
             uint (strong_count h) + int (count_list ops Clone) - int (count_list ops Free)"
  using assms
proof (induction ops arbitrary: m h)
  case Nil
  then show ?case by simp
next
  case (Cons x xs)
  let ?q = "get_header p"
  show ?case
  proof (cases x)
    case Clone
    let ?h1 = "h\<lparr>strong_count := strong_count h + 1\<rparr>"
    let ?m1 = "store_header ?q ?h1 m"
    from Cons.prems(3) Clone have ok: "\<not> SIZE_MAX div 2 \<le> strong_count h"
      and run: "strong_ops p d xs ?m1 = Some m'"
      by (auto simp: arc_clone_live [OF Cons.prems(1)] above_ceiling split: if_splits)
    from ok have lt: "strong_count h < SIZE_MAX div 2" by simp
    then have u: "uint (strong_count h + 1) = uint (strong_count h) + 1"
      by (rule uint_increment)
    have nz: "strong_count ?h1 \<noteq> 0"
    proof
      assume "strong_count ?h1 = 0"
      then have "uint (strong_count h + 1) = 0" by simp
      with u have "uint (strong_count h) = - 1" by simp
      then show False by (metis uint_lt_0 zero_less_one neg_less_0_iff_less)
    qed
    have live: "header_at ?m1 ?q = Some ?h1"
      using Cons.prems(1) by (simp add: header_at_store_header)
    from Cons.IH [OF live nz run]
    obtain h' :: arc_header where "header_at m' ?q = Some h'" and "strong_count h' \<noteq> 0"
      and "weak_count h' = weak_count ?h1"
      and "uint (strong_count h') =
             uint (strong_count ?h1) + int (count_list xs Clone) - int (count_list xs Free)"
      by blast
    with u Clone show ?thesis by simp
  next
    case Free
    let ?h1 = "h\<lparr>strong_count := strong_count h - 1\<rparr>"
    let ?m1 = "store_header ?q ?h1 m"
    from Cons.prems(1,3) Free have ne: "strong_count h \<noteq> 1"
      by (auto simp: atomic_load_def split: if_splits)
    with Cons.prems(3) Free have run: "strong_ops p d xs ?m1 = Some m'"
      by (auto simp: arc_free_live [OF Cons.prems(1)] atomic_load_def split: if_splits)
    from Cons.prems(2) have u: "uint (strong_count h - 1) = uint (strong_count h) - 1"
      by (rule uint_decrement)
    from Cons.prems(2) ne have nz: "strong_count ?h1 \<noteq> 0"
      by simp
    have live: "header_at ?m1 ?q = Some ?h1"
      using Cons.prems(1) by (simp add: header_at_store_header)
    from Cons.IH [OF live nz run]
    obtain h' :: arc_header where "header_at m' ?q = Some h'" and "strong_count h' \<noteq> 0"
      and "weak_count h' = weak_count ?h1"
      and "uint (strong_count h') =
             uint (strong_count ?h1) + int (count_list xs Clone) - int (count_list xs Free)"
      by blast
    with u Free show ?thesis by simp
  qed
qed

lemma strong_ops_prefix:
  "strong_ops p d ops m = Some m' \<Longrightarrow> \<exists>m1. strong_ops p d (take k ops) m = Some m1"
proof (induction ops arbitrary: m k)
  case Nil
  then show ?case by simp
next
  case (Cons x xs)
  show ?case
  proof (cases k)
    case 0
    then show ?thesis by simp
  next
    case (Suc j)
    with Cons show ?thesis
      by (cases x) (auto split: exec.splits option.splits if_splits)
  qed
qed

text \<open>
  C9. Start from the machine \<^verbatim>\<open>arc_new\<close> leaves, with its handle \<open>p\<close>, and run any finite
  sequence of \<^verbatim>\<open>arc_clone\<close> calls that succeed and \<^verbatim>\<open>arc_free\<close> calls that are not final.
  Then \<open>strong_count\<close> is 1 plus the number of clones minus the number of frees; this
  quantity is positive after every prefix of the sequence.
\<close>

theorem strong_count_tracks_clones_and_frees:
  assumes "arc_new answer n m = Ret (Some p) m0" and "strong_ops p d ops m0 = Some m'"
  shows "(\<exists>h. header_at m' (get_header p) = Some h \<and>
            uint (strong_count h) = 1 + int (count_list ops Clone) - int (count_list ops Free)) \<and>
         (\<forall>k. 0 < 1 + int (count_list (take k ops) Clone) - int (count_list (take k ops) Free))"
proof
  have live: "header_at m0 (get_header p) = Some \<lparr>weak_count = 1, strong_count = 1\<rparr>"
    using assms(1) by (rule arc_new_returns_live)
  from strong_ops_count [OF live _ assms(2), simplified]
  show "\<exists>h. header_at m' (get_header p) = Some h \<and>
            uint (strong_count h) = 1 + int (count_list ops Clone) - int (count_list ops Free)"
    by auto
  show "\<forall>k. 0 < 1 + int (count_list (take k ops) Clone) - int (count_list (take k ops) Free)"
  proof
    fix k
    from strong_ops_prefix [OF assms(2), of k]
    obtain m1 where "strong_ops p d (take k ops) m0 = Some m1" by blast
    from strong_ops_count [OF live _ this, simplified]
    obtain h' :: arc_header where "strong_count h' \<noteq> 0"
      and "uint (strong_count h') =
        1 + int (count_list (take k ops) Clone) - int (count_list (take k ops) Free)"
      by blast
    moreover from \<open>strong_count h' \<noteq> 0\<close> have "uint (strong_count h') \<noteq> 0"
      by (simp add: uint_0_iff)
    moreover have "0 \<le> uint (strong_count h')"
      by simp
    ultimately show "0 < 1 + int (count_list (take k ops) Clone) - int (count_list (take k ops) Free)"
      by linarith
  qed
qed

theorem strong_count_tracks_clones_and_frees_witness:
  "arc_new (Some (4096, \<lparr>weak_count = 0, strong_count = 0\<rparr>)) 4 empty_machine = Ret (Some 4112) (arc_machine 1 1) \<and>
   strong_ops 4112 None [Clone, Clone, Free] (arc_machine 1 1) = Some (arc_machine 1 2) \<and>
   header_at (arc_machine 1 2) (get_header 4112) = Some \<lparr>weak_count = 1, strong_count = 2\<rparr> \<and>
   uint (2 :: size_t) =
     1 + int (count_list [Clone, Clone, Free] Clone) - int (count_list [Clone, Clone, Free] Free)"
proof -
  have new: "arc_new (Some (4096, \<lparr>weak_count = 0, strong_count = 0\<rparr>)) 4 empty_machine =
      Ret (Some 4112) (arc_machine 1 1)"
    by (simp add: arc_new_fits SIZE_MAX_def ARC_HEADER_SIZE_WITH_PAD_eq empty_machine_def arc_machine_def)
  have run: "strong_ops 4112 None [Clone, Clone, Free] (arc_machine 1 1) = Some (arc_machine 1 2)"
    by (simp add: arc_clone_live arc_free_live atomic_load_def ARC_WEAK_MAX_REFS_eq)
  from strong_count_tracks_clones_and_frees [OF new run] new run
  show ?thesis by simp
qed

subsection \<open>Invariant A along runs of the public interface\<close>

lemma arc_downgrade_alone:
  assumes "header_at m (get_header p) = Some h"
  shows "arc_downgrade (replicate n Spurious @ [Quiet]) p m =
     Ret (Some p) (store_header (get_header p) (h\<lparr>weak_count := weak_count h + 1\<rparr>) m)"
  by (induction n) (simp_all add: arc_downgrade_quiet [OF assms] arc_downgrade_spurious [OF assms])

lemma weak_upgrade_alone:
  assumes "header_at m (get_header w) = Some h"
  shows "weak_upgrade (replicate n Spurious @ [Quiet]) w m = weak_upgrade [Quiet] w m"
proof (cases "strong_count h = 0 \<or> SIZE_MAX div 2 \<le> strong_count h")
  case True
  then have "weak_upgrade es w m = weak_upgrade [] w m" for es
    by (auto simp: weak_upgrade_live [OF assms] weak_upgrade_loop.simps [of es]
        weak_upgrade_loop.simps [of "[]"] above_ceiling)
  from this [of "replicate n Spurious @ [Quiet]"] this [of "[Quiet]"] show ?thesis
    by simp
next
  case False
  then show ?thesis
    by (induction n) (simp_all add: weak_upgrade_spurious [OF assms])
qed

lemma header_at_destroyed [simp]: "header_at (m\<lparr>destroyed := d\<rparr>) p = header_at m p"
  by (simp add: header_at_def)

lemma header_at_released [simp]:
  "header_at (m\<lparr>heap := (heap m)(q := None), freed := f\<rparr>) q = None"
  by (simp add: header_at_def)

lemma api_step_dead:
  assumes "header_at m (get_header p) = None"
  shows "api_step p x m = None"
  using assms
  by (cases x)
    (simp_all add: arc_clone_def weak_clone_def arc_free_def weak_free_def arc_downgrade_def
      weak_upgrade_def atomic_fetch_add_def atomic_fetch_sub_def atomic_load_def)

lemma api_step_claim:
  assumes "api_step p x m = Some m'" and "header_at m (get_header p) = Some h"
    and "weak_count h \<noteq> 0" and "weak_increment x \<longrightarrow> weak_count h \<noteq> SIZE_MAX"
    and "header_at m' (get_header p) = Some h'"
  shows "weak_count h' \<noteq> 0"
proof (cases x)
  case Op_arc_clone
  with assms show ?thesis
    by (auto simp: arc_clone_live [OF assms(2)] header_at_store_header split: if_splits)
next
  case (Op_arc_free given)
  let ?q = "get_header p"
  show ?thesis
  proof (cases "strong_count h = 1")
    case False
    with assms Op_arc_free show ?thesis
      by (auto simp: arc_free_live [OF assms(2)] header_at_store_header)
  next
    case True
    let ?m1 = "call_destructor (if given then idle_destructor else None) p
                 (store_header ?q (h\<lparr>strong_count := 0\<rparr>) m)"
    have live: "header_at ?m1 ?q = Some (h\<lparr>strong_count := 0\<rparr>)"
      using assms(2) by (simp add: call_destructor_def idle_destructor_def header_at_store_header)
    from assms(1) Op_arc_free True have "outcome (weak_free p ?m1) = Some m'"
      by (simp add: arc_free_live [OF assms(2)])
    with assms(3,5) live show ?thesis
      by (auto simp: weak_free_live [OF live] header_at_store_header split: if_splits)
  qed
next
  case (Op_arc_downgrade n)
  with assms have "weak_count h + 1 \<noteq> 0"
    by (simp add: SIZE_MAX_def) (metis add.commute add_eq_0_iff)
  with assms Op_arc_downgrade show ?thesis
    by (auto simp: arc_downgrade_alone [OF assms(2)] header_at_store_header)
next
  case Op_weak_free
  with assms show ?thesis
    by (auto simp: weak_free_live [OF assms(2)] header_at_store_header split: if_splits)
next
  case Op_weak_clone
  with assms have "weak_count h + 1 \<noteq> 0"
    by (simp add: SIZE_MAX_def) (metis add.commute add_eq_0_iff)
  with assms Op_weak_clone show ?thesis
    by (auto simp: weak_clone_live [OF assms(2)] header_at_store_header split: if_splits)
next
  case (Op_weak_upgrade n)
  with assms show ?thesis
    by (auto simp: weak_upgrade_alone [OF assms(2)] weak_upgrade_quiet [OF assms(2)]
        header_at_store_header split: if_splits)
qed

lemma api_run_claim:
  assumes "api_run p xs m = Some m'" and "no_weak_wrap p xs m"
    and "header_at m (get_header p) = Some h" and "weak_count h \<noteq> 0"
    and "header_at m' (get_header p) = Some h'"
  shows "weak_count h' \<noteq> 0"
  using assms
proof (induction xs arbitrary: m h)
  case Nil
  then show ?case by simp
next
  case (Cons x xs)
  from Cons.prems(1) obtain m1 where step: "api_step p x m = Some m1"
    and run: "api_run p xs m1 = Some m'"
    by (auto split: option.splits)
  from Cons.prems(2) step have wrap: "no_weak_wrap p xs m1"
    and inc: "weak_increment x \<longrightarrow> weak_count h \<noteq> SIZE_MAX"
    using Cons.prems(3) by (auto simp: atomic_load_def)
  show ?case
  proof (cases "header_at m1 (get_header p)")
    case None
    show ?thesis
    proof (cases xs)
      case Nil
      with run None Cons.prems(5) show ?thesis by simp
    next
      case (Cons y ys)
      with run api_step_dead [OF None, of y] show ?thesis by simp
    qed
  next
    case (Some h1)
    from api_step_claim [OF step Cons.prems(3,4) inc Some] have "weak_count h1 \<noteq> 0" .
    from Cons.IH [OF run wrap Some this Cons.prems(5)] show ?thesis .
  qed
qed

lemma weak_clone_run:
  assumes "header_at m (get_header p) = Some h"
  shows "header_after p (replicate n Op_weak_clone) m =
     Some (h\<lparr>weak_count := weak_count h + of_nat n\<rparr>)"
  using assms
proof (induction n arbitrary: m h)
  case 0
  then show ?case by (simp add: header_after_def)
next
  case (Suc n)
  let ?q = "get_header p"
  let ?h1 = "h\<lparr>weak_count := weak_count h + 1\<rparr>"
  from weak_clone_live [OF Suc.prems]
  obtain m1 where step: "api_step p Op_weak_clone m = Some m1"
    and live: "header_at m1 ?q = Some ?h1"
    using Suc.prems by (auto simp: header_at_store_header split: if_splits)
  from step have "header_after p (replicate (Suc n) Op_weak_clone) m =
      header_after p (replicate n Op_weak_clone) m1"
    by (simp add: header_after_def)
  also from Suc.IH [OF live] have "\<dots> = Some (?h1\<lparr>weak_count := weak_count ?h1 + of_nat n\<rparr>)" .
  finally show ?case by (simp add: add.assoc)
qed

lemma unat_inc: "(x :: size_t) \<noteq> SIZE_MAX \<Longrightarrow> unat (x + 1) = unat x + 1"
  by (metis SIZE_MAX_def add.commute add_eq_0_iff unatSuc Suc_eq_plus1)

lemma unat_one_iff: "(unat (x :: size_t) = Suc 0) = (x = 1)"
  by (metis One_nat_def unat_1 word_unat_eq_iff)

lemma accounted_invariant_A: "accounted hs h \<Longrightarrow> invariant_A h"
  by (cases hs) (auto simp: invariant_A_def word_le_nat_alt)

lemma client_step:
  assumes live: "header_at m (get_header p) = Some h"
    and acc: "accounted (S, W) h"
    and holds: "holds x (S, W)"
    and wrap: "\<not> counter_wraps p x m"
  shows "\<exists>m'. api_step p x m = Some m' \<and>
     ((\<exists>h'. header_at m' (get_header p) = Some h' \<and>
            accounted (handles_step p x m (S, W)) h' \<and> freed m' = freed m) \<or>
      (header_at m' (get_header p) = None \<and> handles_step p x m (S, W) = (0, 0) \<and>
       freed m' = freed m @ [get_header p]))"
proof -
  let ?q = "get_header p"
  let ?s = "strong_count h"
  let ?w = "weak_count h"
  from acc have S: "S \<le> unat ?s" and W: "W + (if ?s \<noteq> 0 then 1 else 0) \<le> unat ?w"
    by (simp_all add: word_neq_0_conv)
  show ?thesis
  proof (cases x)
    case Op_arc_clone
    from holds Op_arc_clone S have s0: "?s \<noteq> 0" by auto
    from wrap Op_arc_clone live have "?s \<noteq> SIZE_MAX" by (simp add: atomic_load_def)
    then have u: "unat (?s + 1) = unat ?s + 1" by (rule unat_inc)
    then have s1: "?s + 1 \<noteq> 0" by (metis Suc_eq_plus1 nat.simps(3) unat_0)
    let ?h' = "h\<lparr>strong_count := ?s + 1\<rparr>"
    have "accounted (S + 1, W) ?h' \<and> accounted (S, W) ?h'"
      using S W s0 s1 u by (simp add: word_neq_0_conv)
    then show ?thesis
      using Op_arc_clone live
      by (auto simp: arc_clone_live [OF live] header_at_store_header)
  next
    case (Op_arc_free given)
    from holds Op_arc_free S have s0: "?s \<noteq> 0" by auto
    then have u: "unat (?s - 1) = unat ?s - 1" by (rule unat_minus_one)
    from W s0 have W1: "W + 1 \<le> unat ?w" by simp
    then have w0: "?w \<noteq> 0" by auto
    then have uw: "unat (?w - 1) = unat ?w - 1" by (rule unat_minus_one)
    show ?thesis
    proof (cases "?s = 1")
      case False
      with s0 have "2 \<le> unat ?s"
        by (metis One_nat_def Suc_1 Suc_leI le_neq_implies_less unat_gt_0 unat_one_iff)
      with u have s1: "?s - 1 \<noteq> 0" by (metis Suc_1 diff_is_0_eq not_less_eq_eq unat_0 One_nat_def)
      let ?h' = "h\<lparr>strong_count := ?s - 1\<rparr>"
      have "accounted (S - 1, W) ?h'"
        using S W1 s1 u by (simp add: word_neq_0_conv)
      then show ?thesis
        using Op_arc_free False live
        by (auto simp: arc_free_live [OF live] header_at_store_header)
    next
      case True
      with S holds Op_arc_free have S1: "S = 1" by simp
      let ?m1 = "call_destructor (if given then idle_destructor else None) p
                   (store_header ?q (h\<lparr>strong_count := 0\<rparr>) m)"
      have live1: "header_at ?m1 ?q = Some (h\<lparr>strong_count := 0\<rparr>)"
        using live by (simp add: call_destructor_def idle_destructor_def header_at_store_header)
      have fr: "freed ?m1 = freed m"
        by (simp add: call_destructor_def idle_destructor_def)
      have step: "api_step p x m = outcome (weak_free p ?m1)"
        using Op_arc_free True by (simp add: arc_free_live [OF live])
      show ?thesis
      proof (cases "?w = 1")
        case True
        with W1 have "W = 0" by simp
        with S1 Op_arc_free True step fr show ?thesis
          by (simp add: weak_free_live [OF live1])
      next
        case False
        let ?h' = "h\<lparr>strong_count := 0, weak_count := ?w - 1\<rparr>"
        have "accounted (S - 1, W) ?h'"
          using S1 W1 uw by simp
        with Op_arc_free False step fr live1 show ?thesis
          by (simp add: weak_free_live [OF live1] header_at_store_header)
      qed
    qed
  next
    case (Op_arc_downgrade n)
    from holds Op_arc_downgrade S have s0: "?s \<noteq> 0" by auto
    from wrap Op_arc_downgrade live have "?w \<noteq> SIZE_MAX" by (simp add: atomic_load_def)
    then have u: "unat (?w + 1) = unat ?w + 1" by (rule unat_inc)
    let ?h' = "h\<lparr>weak_count := ?w + 1\<rparr>"
    have "accounted (S, W + 1) ?h'"
      using S W s0 u by (simp add: word_neq_0_conv)
    then show ?thesis
      using Op_arc_downgrade live
      by (simp add: arc_downgrade_alone [OF live] header_at_store_header)
  next
    case Op_weak_free
    from holds Op_weak_free W have w0: "?w \<noteq> 0" by auto
    then have uw: "unat (?w - 1) = unat ?w - 1" by (rule unat_minus_one)
    show ?thesis
    proof (cases "?w = 1")
      case True
      with W holds Op_weak_free have "W = 1" and "?s = 0"
        by (auto split: if_splits)
      with S have "S = 0" by simp
      with \<open>W = 1\<close> Op_weak_free True show ?thesis
        by (simp add: weak_free_live [OF live])
    next
      case False
      let ?h' = "h\<lparr>weak_count := ?w - 1\<rparr>"
      have "accounted (S, W - 1) ?h'"
        using S W uw holds Op_weak_free by (auto simp: word_neq_0_conv)
      with Op_weak_free False live show ?thesis
        by (simp add: weak_free_live [OF live] header_at_store_header)
    qed
  next
    case Op_weak_clone
    from wrap Op_weak_clone live have "?w \<noteq> SIZE_MAX" by (simp add: atomic_load_def)
    then have u: "unat (?w + 1) = unat ?w + 1" by (rule unat_inc)
    let ?h' = "h\<lparr>weak_count := ?w + 1\<rparr>"
    have "accounted (S, W + 1) ?h' \<and> accounted (S, W) ?h'"
      using S W u by (simp add: word_neq_0_conv)
    then show ?thesis
      using Op_weak_clone live
      by (auto simp: weak_clone_live [OF live] header_at_store_header)
  next
    case (Op_weak_upgrade n)
    have run: "weak_upgrade (replicate n Spurious @ [Quiet]) p m = weak_upgrade [Quiet] p m"
      by (rule weak_upgrade_alone [OF live])
    show ?thesis
    proof (cases "?s = 0 \<or> SIZE_MAX div 2 \<le> ?s")
      case True
      with Op_weak_upgrade live acc run show ?thesis
        by (auto simp: weak_upgrade_quiet [OF live])
    next
      case False
      then have s0: "?s \<noteq> 0" by simp
      from False have lt: "?s < SIZE_MAX div 2" using leI by blast
      from lt have u: "unat (?s + 1) = unat ?s + 1" by (rule below_ceiling_no_wrap)
      then have s1: "?s + 1 \<noteq> 0" by (metis Suc_eq_plus1 nat.simps(3) unat_0)
      let ?h' = "h\<lparr>strong_count := ?s + 1\<rparr>"
      have "accounted (S + 1, W) ?h'"
        using S W s0 s1 u by (simp add: word_neq_0_conv)
      with Op_weak_upgrade False live run show ?thesis
        by (simp add: weak_upgrade_quiet [OF live] header_at_store_header)
    qed
  qed
qed

lemma client_run:
  assumes "header_at m (get_header p) = Some h" and "accounted hs h" and "client_ok p xs hs m"
  shows "\<exists>m'. api_run p xs m = Some m' \<and>
     ((\<exists>h'. header_at m' (get_header p) = Some h' \<and>
            accounted (handles_after p xs hs m) h' \<and> freed m' = freed m) \<or>
      (header_at m' (get_header p) = None \<and> handles_after p xs hs m = (0, 0) \<and>
       freed m' = freed m @ [get_header p]))"
  using assms
proof (induction xs arbitrary: m h hs)
  case Nil
  then show ?case by simp
next
  case (Cons x xs)
  obtain S W where hs: "hs = (S, W)" by (cases hs)
  from Cons.prems(3) have holds: "holds x (S, W)" and wrap: "\<not> counter_wraps p x m"
    by (simp_all add: hs)
  from client_step [OF Cons.prems(1) Cons.prems(2) [unfolded hs] holds wrap]
  obtain m1 where step: "api_step p x m = Some m1"
    and after: "(\<exists>h'. header_at m1 (get_header p) = Some h' \<and>
            accounted (handles_step p x m (S, W)) h' \<and> freed m1 = freed m) \<or>
      (header_at m1 (get_header p) = None \<and> handles_step p x m (S, W) = (0, 0) \<and>
       freed m1 = freed m @ [get_header p])"
    by blast
  from Cons.prems(3) step have ok: "client_ok p xs (handles_step p x m (S, W)) m1"
    by (simp add: hs)
  from after show ?case
  proof (elim disjE exE conjE)
    fix h1
    assume h1: "header_at m1 (get_header p) = Some h1"
      and acc1: "accounted (handles_step p x m (S, W)) h1"
      and fr: "freed m1 = freed m"
    from Cons.IH [OF h1 acc1 ok] step fr show ?thesis
      by (simp add: hs)
  next
    assume dead: "header_at m1 (get_header p) = None"
      and none: "handles_step p x m (S, W) = (0, 0)"
      and fr: "freed m1 = freed m @ [get_header p]"
    have "xs = []"
    proof (cases xs)
      case (Cons y ys)
      with ok none have "holds y (0, 0)" by simp
      then show ?thesis by (cases y) simp_all
    qed simp
    with step dead none fr show ?thesis
      by (simp add: hs)
  qed
qed

lemma accounted_creation: "accounted (1, 0) \<lparr>weak_count = 1, strong_count = 1\<rparr>"
  by simp

text \<open>
  C4, as the claim states it, fails in two ways.
  \<^item> \<open>weak_count\<close> wraps. \<^verbatim>\<open>weak_clone\<close> increments the counter before it compares the old
    value with the ceiling, and leaves it incremented when it fails. From the creation
    state (both counters 1), \<^verbatim>\<open>SIZE_MAX\<close> calls of \<^verbatim>\<open>weak_clone\<close> on the handle leave
    \<open>weak_count = 0\<close> while \<open>strong_count = 1\<close>.
  \<^item> Handles carry no kind. \<^verbatim>\<open>weak_free\<close> called on the strong handle of the creation
    state, where no weak handle exists, decrements \<open>weak_count\<close> to 0 while \<open>strong_count\<close>
    is 1, and frees the block.
\<close>

theorem invariant_A_counterexample:
  "arc_new (Some (4096, \<lparr>weak_count = 0, strong_count = 0\<rparr>)) 4 empty_machine =
     Ret (Some 4112) (arc_machine 1 1) \<and>
   header_after 4112 (replicate 18446744073709551615 Op_weak_clone) (arc_machine 1 1) =
     Some \<lparr>weak_count = 0, strong_count = 1\<rparr> \<and>
   \<not> invariant_A \<lparr>weak_count = 0, strong_count = 1\<rparr> \<and>
   atomic_fetch_sub Weak (get_header 4112) 1 (arc_machine 1 1) = Some (1, arc_machine 0 1) \<and>
   weak_free 4112 (arc_machine 1 1) = Ret () (empty_machine\<lparr>freed := [4096]\<rparr>)"
proof (intro conjI)
  show "atomic_fetch_sub Weak (get_header 4112) 1 (arc_machine 1 1) = Some (1, arc_machine 0 1)"
    by (simp add: atomic_fetch_sub_def)
  show "weak_free 4112 (arc_machine 1 1) = Ret () (empty_machine\<lparr>freed := [4096]\<rparr>)"
    by (simp add: weak_free_live) (simp add: arc_machine_def empty_machine_def)
  show "arc_new (Some (4096, \<lparr>weak_count = 0, strong_count = 0\<rparr>)) 4 empty_machine =
      Ret (Some 4112) (arc_machine 1 1)"
    by (simp add: arc_new_fits SIZE_MAX_def ARC_HEADER_SIZE_WITH_PAD_eq empty_machine_def arc_machine_def)
  have live: "header_at (arc_machine 1 1) (get_header 4112) = Some \<lparr>weak_count = 1, strong_count = 1\<rparr>"
    by simp
  have "(1 :: size_t) + of_nat 18446744073709551615 = 0"
    by simp
  then have "\<lparr>weak_count = 1, strong_count = 1\<rparr>
      \<lparr>weak_count := weak_count \<lparr>weak_count = 1, strong_count = 1 :: size_t\<rparr> + of_nat 18446744073709551615\<rparr> =
      \<lparr>weak_count = 0, strong_count = 1\<rparr>"
    by simp
  with weak_clone_run [OF live, of 18446744073709551615]
  show "header_after 4112 (replicate 18446744073709551615 Op_weak_clone) (arc_machine 1 1) =
      Some \<lparr>weak_count = 0, strong_count = 1\<rparr>"
    by (simp only:)
  show "\<not> invariant_A \<lparr>weak_count = 0, strong_count = 1\<rparr>"
    by (simp add: invariant_A_def)
qed

text \<open>
  C4, amended. Start from the machine \<^verbatim>\<open>arc_new\<close> leaves, with its handle \<open>p\<close>, and run any
  finite sequence of calls of \<^verbatim>\<open>arc_clone\<close>, \<^verbatim>\<open>arc_free\<close>, \<^verbatim>\<open>arc_downgrade\<close>, \<^verbatim>\<open>weak_free\<close>,
  \<^verbatim>\<open>weak_clone\<close> and \<^verbatim>\<open>weak_upgrade\<close> on \<open>p\<close>, one call at a time.
  \<^item> Whatever the calls are: if no call that increments \<open>weak_count\<close> finds it at
    \<^verbatim>\<open>SIZE_MAX\<close>, and the block is still allocated after the run, then \<open>weak_count\<close> is at
    least 1, in particular whenever \<open>strong_count\<close> is greater than 0.
  \<^item> If every call is made on a handle of its kind that a caller holds (one strong handle
    at the start) and no call increments a counter that is at \<^verbatim>\<open>SIZE_MAX\<close>, then every call
    of the run is defined, and afterwards either the block is still allocated, never
    freed, with \<open>strong_count\<close> at least the number of strong handles held and
    \<open>weak_count\<close> at least the number of weak handles held plus the implicit claim (1
    while \<open>strong_count > 0\<close>), so that \<open>weak_count\<close> is at least 1 whenever \<open>strong_count\<close>
    is greater than 0; or no handle is left and the block has been freed, once. So the
    implicit claim keeps the block allocated as long as a strong handle is held.
\<close>

theorem invariant_A_along_runs:
  assumes "arc_new answer n m = Ret (Some p) m0"
  shows "(no_weak_wrap p xs m0 \<longrightarrow>
            (\<forall>h. header_after p xs m0 = Some h \<longrightarrow> 1 \<le> weak_count h \<and> invariant_A h)) \<and>
         (client_ok p xs (1, 0) m0 \<longrightarrow>
            (\<exists>m'. api_run p xs m0 = Some m' \<and>
               ((\<exists>h. header_at m' (get_header p) = Some h \<and> invariant_A h \<and>
                     accounted (handles_after p xs (1, 0) m0) h \<and> freed m' = freed m0) \<or>
                (header_at m' (get_header p) = None \<and> handles_after p xs (1, 0) m0 = (0, 0) \<and>
                 freed m' = freed m0 @ [get_header p]))))"
proof (rule conjI)
  have live: "header_at m0 (get_header p) = Some \<lparr>weak_count = 1, strong_count = 1\<rparr>"
    using assms by (rule arc_new_returns_live)
  show "no_weak_wrap p xs m0 \<longrightarrow>
          (\<forall>h. header_after p xs m0 = Some h \<longrightarrow> 1 \<le> weak_count h \<and> invariant_A h)"
  proof (intro impI allI)
    fix h
    assume wrap: "no_weak_wrap p xs m0" and after: "header_after p xs m0 = Some h"
    from after obtain m' where run: "api_run p xs m0 = Some m'"
      and h: "header_at m' (get_header p) = Some h"
      by (auto simp: header_after_def split: option.splits)
    from api_run_claim [OF run wrap live _ h] have "weak_count h \<noteq> 0"
      by simp
    then have "1 \<le> weak_count h"
      by (simp add: word_le_nat_alt unat_gt_0 Suc_leI)
    then show "1 \<le> weak_count h \<and> invariant_A h"
      by (simp add: invariant_A_def)
  qed
  show "client_ok p xs (1, 0) m0 \<longrightarrow>
          (\<exists>m'. api_run p xs m0 = Some m' \<and>
             ((\<exists>h. header_at m' (get_header p) = Some h \<and> invariant_A h \<and>
                   accounted (handles_after p xs (1, 0) m0) h \<and> freed m' = freed m0) \<or>
              (header_at m' (get_header p) = None \<and> handles_after p xs (1, 0) m0 = (0, 0) \<and>
               freed m' = freed m0 @ [get_header p])))"
  proof
    assume ok: "client_ok p xs (1, 0) m0"
    from client_run [OF live accounted_creation ok]
    show "\<exists>m'. api_run p xs m0 = Some m' \<and>
             ((\<exists>h. header_at m' (get_header p) = Some h \<and> invariant_A h \<and>
                   accounted (handles_after p xs (1, 0) m0) h \<and> freed m' = freed m0) \<or>
              (header_at m' (get_header p) = None \<and> handles_after p xs (1, 0) m0 = (0, 0) \<and>
               freed m' = freed m0 @ [get_header p]))"
      using accounted_invariant_A by blast
  qed
qed

theorem invariant_A_along_runs_witness:
  "arc_new (Some (4096, \<lparr>weak_count = 0, strong_count = 0\<rparr>)) 4 empty_machine =
     Ret (Some 4112) (arc_machine 1 1) \<and>
   no_weak_wrap 4112 [Op_arc_clone, Op_arc_free False] (arc_machine 1 1) \<and>
   header_after 4112 [Op_arc_clone, Op_arc_free False] (arc_machine 1 1) =
     Some \<lparr>weak_count = 1, strong_count = 1\<rparr> \<and>
   invariant_A \<lparr>weak_count = 1, strong_count = 1\<rparr> \<and>
   client_ok 4112 [Op_arc_clone, Op_arc_free False] (1, 0) (arc_machine 1 1) \<and>
   api_run 4112 [Op_arc_clone, Op_arc_free False] (arc_machine 1 1) = Some (arc_machine 1 1) \<and>
   handles_after 4112 [Op_arc_clone, Op_arc_free False] (1, 0) (arc_machine 1 1) = (1, 0) \<and>
   accounted (1, 0) \<lparr>weak_count = 1, strong_count = 1\<rparr> \<and>
   client_ok 4112 [Op_arc_downgrade 0, Op_arc_free True, Op_weak_upgrade 0, Op_weak_free] (1, 0)
     (arc_machine 1 1) \<and>
   api_run 4112 [Op_arc_downgrade 0, Op_arc_free True, Op_weak_upgrade 0, Op_weak_free]
     (arc_machine 1 1) =
     Some (empty_machine\<lparr>freed := [4096], destroyed := [4112], errno := Some ENOENT\<rparr>) \<and>
   handles_after 4112 [Op_arc_downgrade 0, Op_arc_free True, Op_weak_upgrade 0, Op_weak_free] (1, 0)
     (arc_machine 1 1) = (0, 0)"
proof -
  let ?a = "[Op_arc_clone, Op_arc_free False]"
  let ?b = "[Op_arc_downgrade 0, Op_arc_free True, Op_weak_upgrade 0, Op_weak_free]"
  let ?m2 = "(arc_machine 1 0)\<lparr>destroyed := [4112]\<rparr>"
  let ?m3 = "(arc_machine 1 0)\<lparr>destroyed := [4112], errno := Some ENOENT\<rparr>"
  let ?m4 = "empty_machine\<lparr>freed := [4096], destroyed := [4112], errno := Some ENOENT\<rparr>"
  have new: "arc_new (Some (4096, \<lparr>weak_count = 0, strong_count = 0\<rparr>)) 4 empty_machine =
      Ret (Some 4112) (arc_machine 1 1)"
    by (simp add: arc_new_fits SIZE_MAX_def ARC_HEADER_SIZE_WITH_PAD_eq empty_machine_def arc_machine_def)
  have c1: "arc_clone 4112 (arc_machine 1 1) = Ret (Some 4112) (arc_machine 1 2)"
    by (simp add: arc_clone_live ARC_WEAK_MAX_REFS_eq)
  have c2: "arc_free 4112 None (arc_machine 1 2) = Ret () (arc_machine 1 1)"
    by (simp add: arc_free_live)
  have d1: "arc_downgrade [Quiet] 4112 (arc_machine 1 1) = Ret (Some 4112) (arc_machine 2 1)"
    by (simp add: arc_downgrade_quiet)
  have d2: "arc_free 4112 idle_destructor (arc_machine 2 1) = Ret () ?m2"
    by (simp add: arc_free_live weak_free_live call_destructor_def idle_destructor_def
        header_at_def store_header_def arc_machine_def sizeof_arc_header_t_def)
  have live2: "header_at ?m2 (get_header 4112) = Some \<lparr>weak_count = 1, strong_count = 0\<rparr>"
    by simp
  have d3: "weak_upgrade [Quiet] 4112 ?m2 = Ret None ?m3"
    by (simp add: weak_upgrade_quiet [OF live2])
  have live3: "header_at ?m3 (get_header 4112) = Some \<lparr>weak_count = 1, strong_count = 0\<rparr>"
    by simp
  have d4: "weak_free 4112 ?m3 = Ret () ?m4"
    by (simp add: weak_free_live [OF live3]) (simp add: arc_machine_def empty_machine_def)
  have wrap_a: "no_weak_wrap 4112 ?a (arc_machine 1 1)"
    by (simp add: c1 c2)
  have after_a: "header_after 4112 ?a (arc_machine 1 1) = Some \<lparr>weak_count = 1, strong_count = 1\<rparr>"
    by (simp add: header_after_def c1 c2)
  have ok_a: "client_ok 4112 ?a (1, 0) (arc_machine 1 1)"
    by (simp add: c1 c2 atomic_load_def SIZE_MAX_def)
  have run_a: "api_run 4112 ?a (arc_machine 1 1) = Some (arc_machine 1 1)"
    by (simp add: c1 c2)
  have hs_a: "handles_after 4112 ?a (1, 0) (arc_machine 1 1) = (1, 0)"
    by (simp add: c1 c2)
  have ok_b: "client_ok 4112 ?b (1, 0) (arc_machine 1 1)"
    by (simp add: d1 d2 d3 d4 atomic_load_def SIZE_MAX_def)
  have run_b: "api_run 4112 ?b (arc_machine 1 1) = Some ?m4"
    by (simp add: d1 d2 d3 d4)
  have hs_b: "handles_after 4112 ?b (1, 0) (arc_machine 1 1) = (0, 0)"
    by (simp add: d1 d2 d3 d4)
  from invariant_A_along_runs [OF new, of ?a] invariant_A_along_runs [OF new, of ?b]
    new wrap_a after_a ok_a run_a hs_a ok_b run_b hs_b
  show ?thesis
    by (simp add: invariant_A_def)
qed

subsection \<open>Weak free and deallocation\<close>

lemma api_step_defined:
  assumes "header_at m (get_header p) = Some h"
  shows "\<exists>m'. api_step p x m = Some m'"
proof (cases x)
  case (Op_arc_free given)
  let ?m1 = "call_destructor (if given then idle_destructor else None) p
               (store_header (get_header p) (h\<lparr>strong_count := 0\<rparr>) m)"
  have live: "header_at ?m1 (get_header p) = Some (h\<lparr>strong_count := 0\<rparr>)"
    using assms by (simp add: call_destructor_def idle_destructor_def header_at_store_header)
  show ?thesis
    using Op_arc_free by (simp add: arc_free_live [OF assms] weak_free_live [OF live])
next
  case (Op_weak_upgrade n)
  then show ?thesis
    by (simp add: weak_upgrade_alone [OF assms] weak_upgrade_quiet [OF assms])
qed (simp_all add: arc_clone_live [OF assms] weak_clone_live [OF assms] weak_free_live [OF assms]
      arc_downgrade_alone [OF assms])

lemma api_step_frees:
  assumes "api_step p x m = Some m'"
  shows "(freed m' = freed m \<and> header_at m' (get_header p) \<noteq> None) \<or>
         (freed m' = freed m @ [get_header p] \<and> header_at m' (get_header p) = None)"
proof (cases "header_at m (get_header p)")
  case None
  from api_step_dead [OF None, of x] assms show ?thesis by simp
next
  case (Some h)
  let ?q = "get_header p"
  show ?thesis
  proof (cases x)
    case Op_arc_clone
    with assms Some show ?thesis
      by (auto simp: arc_clone_live [OF Some] header_at_store_header split: if_splits)
  next
    case (Op_arc_free given)
    let ?m1 = "call_destructor (if given then idle_destructor else None) p
                 (store_header ?q (h\<lparr>strong_count := 0\<rparr>) m)"
    have live: "header_at ?m1 ?q = Some (h\<lparr>strong_count := 0\<rparr>)"
      using Some by (simp add: call_destructor_def idle_destructor_def header_at_store_header)
    have fr: "freed ?m1 = freed m"
      by (simp add: call_destructor_def idle_destructor_def)
    from assms Op_arc_free Some live fr show ?thesis
      by (auto simp: arc_free_live [OF Some] weak_free_live [OF live] header_at_store_header
          split: if_splits)
  next
    case (Op_arc_downgrade n)
    with assms Some show ?thesis
      by (auto simp: arc_downgrade_alone [OF Some] header_at_store_header)
  next
    case Op_weak_free
    with assms Some show ?thesis
      by (auto simp: weak_free_live [OF Some] header_at_store_header split: if_splits)
  next
    case Op_weak_clone
    with assms Some show ?thesis
      by (auto simp: weak_clone_live [OF Some] header_at_store_header split: if_splits)
  next
    case (Op_weak_upgrade n)
    with assms Some show ?thesis
      by (auto simp: weak_upgrade_alone [OF Some] weak_upgrade_quiet [OF Some]
          header_at_store_header split: if_splits)
  qed
qed

lemma api_run_frees_once:
  assumes "api_run p xs m = Some m'"
  shows "freed m' = freed m \<or> freed m' = freed m @ [get_header p]"
  using assms
proof (induction xs arbitrary: m)
  case Nil
  then show ?case by simp
next
  case (Cons x xs)
  from Cons.prems obtain m1 where step: "api_step p x m = Some m1"
    and run: "api_run p xs m1 = Some m'"
    by (auto split: option.splits)
  from api_step_frees [OF step] show ?case
  proof (elim disjE conjE)
    assume "freed m1 = freed m"
    with Cons.IH [OF run] show ?thesis by simp
  next
    assume fr: "freed m1 = freed m @ [get_header p]"
      and dead: "header_at m1 (get_header p) = None"
    show ?thesis
    proof (cases xs)
      case Nil
      with run fr show ?thesis by simp
    next
      case (Cons y ys)
      with run api_step_dead [OF dead, of y] show ?thesis by simp
    qed
  qed
qed

text \<open>
  C1. Let \<open>h\<close> be the header behind the handle \<open>w\<close>. \<^verbatim>\<open>weak_free\<close> returns, and it hands
  the block to \<^verbatim>\<open>free\<close> (the block leaves the heap, its base is appended to \<open>freed\<close>)
  if and only if the \<open>weak_count\<close> it found was 1; after that a further \<^verbatim>\<open>weak_free\<close> on
  the handle is no defined execution. No other function calls \<^verbatim>\<open>free\<close>: whatever
  \<^verbatim>\<open>arc_new\<close>, \<^verbatim>\<open>arc_clone\<close>, \<^verbatim>\<open>arc_downgrade\<close>, \<^verbatim>\<open>weak_clone\<close> and \<^verbatim>\<open>weak_upgrade\<close> return,
  \<open>freed\<close> is unchanged and no block has left the heap; \<^verbatim>\<open>arc_free\<close> leaves both alone
  when the \<open>strong_count\<close> it found is not 1, and otherwise finishes as the call of
  \<^verbatim>\<open>weak_free\<close>. Along every defined run of calls on the handle the block is freed at most
  once.
\<close>

theorem weak_free_sole_deallocator:
  assumes "header_at m (get_header w) = Some h"
  shows "(\<exists>m'. weak_free w m = Ret () m' \<and>
            (if weak_count h = 1
             then heap m' = (heap m)(get_header w := None) \<and>
                  freed m' = freed m @ [get_header w] \<and> weak_free w m' = UB
             else dom (heap m') = dom (heap m) \<and> freed m' = freed m)) \<and>
         (\<forall>r m'. arc_new a n m = Ret r m' \<or> arc_clone w m = Ret r m' \<or>
                  arc_downgrade es w m = Ret r m' \<or> weak_clone w m = Ret r m' \<or>
                  weak_upgrade es w m = Ret r m' \<longrightarrow>
                  freed m' = freed m \<and> dom (heap m) \<subseteq> dom (heap m')) \<and>
         (strong_count h \<noteq> 1 \<longrightarrow>
            (\<exists>m'. arc_free w d m = Ret () m' \<and> freed m' = freed m \<and> dom (heap m') = dom (heap m))) \<and>
         (strong_count h = 1 \<longrightarrow>
            arc_free w d m =
              weak_free w (call_destructor d w
                (store_header (get_header w) (h\<lparr>strong_count := 0\<rparr>) m))) \<and>
         (\<forall>xs m'. api_run w xs m = Some m' \<longrightarrow>
            freed m' = freed m \<or> freed m' = freed m @ [get_header w])"
proof (intro conjI)
  show "\<forall>xs m'. api_run w xs m = Some m' \<longrightarrow>
            freed m' = freed m \<or> freed m' = freed m @ [get_header w]"
    using api_run_frees_once by blast
  show "\<exists>m'. weak_free w m = Ret () m' \<and>
            (if weak_count h = 1
             then heap m' = (heap m)(get_header w := None) \<and>
                  freed m' = freed m @ [get_header w] \<and> weak_free w m' = UB
             else dom (heap m') = dom (heap m) \<and> freed m' = freed m)"
    by (simp add: weak_free_live [OF assms] weak_free_dead header_at_def)
  show "\<forall>r m'. arc_new a n m = Ret r m' \<or> arc_clone w m = Ret r m' \<or>
                  arc_downgrade es w m = Ret r m' \<or> weak_clone w m = Ret r m' \<or>
                  weak_upgrade es w m = Ret r m' \<longrightarrow>
                  freed m' = freed m \<and> dom (heap m) \<subseteq> dom (heap m')"
  proof (intro allI impI)
    fix r m'
    assume "arc_new a n m = Ret r m' \<or> arc_clone w m = Ret r m' \<or>
            arc_downgrade es w m = Ret r m' \<or> weak_clone w m = Ret r m' \<or>
            weak_upgrade es w m = Ret r m'"
    then show "freed m' = freed m \<and> dom (heap m) \<subseteq> dom (heap m')"
    proof (elim disjE)
      assume "arc_new a n m = Ret r m'"
      then show ?thesis by (rule arc_new_keeps)
    next
      assume "arc_clone w m = Ret r m'"
      from arc_clone_keeps [OF this] show ?thesis by simp
    next
      assume "arc_downgrade es w m = Ret r m'"
      from arc_downgrade_keeps [OF this] show ?thesis by simp
    next
      assume "weak_clone w m = Ret r m'"
      from weak_clone_keeps [OF this] show ?thesis by simp
    next
      assume "weak_upgrade es w m = Ret r m'"
      from weak_upgrade_keeps [OF this] show ?thesis by simp
    qed
  qed
  show "strong_count h \<noteq> 1 \<longrightarrow>
            (\<exists>m'. arc_free w d m = Ret () m' \<and> freed m' = freed m \<and> dom (heap m') = dom (heap m))"
    by (simp add: arc_free_live [OF assms])
  show "strong_count h = 1 \<longrightarrow>
            arc_free w d m =
              weak_free w (call_destructor d w
                (store_header (get_header w) (h\<lparr>strong_count := 0\<rparr>) m))"
    by (simp add: arc_free_live [OF assms])
qed

theorem weak_free_sole_deallocator_witness:
  "header_at (arc_machine 1 0) (get_header 4112) = Some \<lparr>weak_count = 1, strong_count = 0\<rparr> \<and>
   weak_free 4112 (arc_machine 1 0) = Ret () (empty_machine\<lparr>freed := [4096]\<rparr>) \<and>
   weak_free 4112 (empty_machine\<lparr>freed := [4096]\<rparr>) = UB \<and>
   header_at (arc_machine 2 1) (get_header 4112) = Some \<lparr>weak_count = 2, strong_count = 1\<rparr> \<and>
   weak_free 4112 (arc_machine 2 1) = Ret () (arc_machine 1 1) \<and>
   arc_clone 4112 (arc_machine 2 1) = Ret (Some 4112) (arc_machine 2 2) \<and>
   freed (arc_machine 2 2) = freed (arc_machine 2 1) \<and>
   arc_free 4112 None (arc_machine 2 1) = Ret () (arc_machine 1 0)"
  using weak_free_sole_deallocator [of "arc_machine 1 0" 4112 "\<lparr>weak_count = 1, strong_count = 0\<rparr>"]
    weak_free_sole_deallocator [of "arc_machine 2 1" 4112 "\<lparr>weak_count = 2, strong_count = 1\<rparr>"
      None 0 "[]" None]
  by (simp add: weak_free_live weak_free_dead arc_clone_live call_destructor_def header_at_def
      arc_machine_def empty_machine_def store_header_def sizeof_arc_header_t_def ARC_WEAK_MAX_REFS_eq)

end
